theory Spec2Isabelle
  imports Complex_Main "HOL-Library.Sublist"
begin

section \<open>Python strings\<close>

text \<open>
  A Python \<open>str\<close> is modelled as a \<^typ>\<open>string\<close>; a \<^typ>\<open>char\<close> stands for the code
  point of the same number, so the model covers text in the Latin-1 range. In that
  range the decimal digits are \<open>0\<close> to \<open>9\<close>, which is what \<open>\d\<close> and \<open>int()\<close> accept.
\<close>

abbreviation LF :: char where "LF \<equiv> CHR 0x0A"
abbreviation CR :: char where "CR \<equiv> CHR 0x0D"
abbreviation TAB :: char where "TAB \<equiv> CHR 0x09"
abbreviation DQ :: char where "DQ \<equiv> CHR 0x22"
abbreviation SQ :: char where "SQ \<equiv> CHR 0x27"
abbreviation BSL :: char where "BSL \<equiv> CHR 0x5C"

text \<open>\<open>s.startswith(p)\<close>.\<close>

abbreviation startswith :: "string \<Rightarrow> string \<Rightarrow> bool" where
  "startswith s p \<equiv> prefix p s"

text \<open>\<open>p in s\<close> for two strings.\<close>

fun contains :: "string \<Rightarrow> string \<Rightarrow> bool" where
  "contains p [] = (p = [])"
| "contains p (c # cs) = (prefix p (c # cs) \<or> contains p cs)"

text \<open>\<open>s.lower()\<close>: the ASCII capitals and the Latin-1 capitals move up by 32.\<close>

definition lower_char :: "char \<Rightarrow> char" where
  "lower_char c =
     (let n = (of_char c :: nat)
      in if (65 \<le> n \<and> n \<le> 90) \<or> (192 \<le> n \<and> n \<le> 222 \<and> n \<noteq> 215)
         then char_of (n + 32) else c)"

definition lower :: "string \<Rightarrow> string" where
  "lower s = map lower_char s"

text \<open>\<open>s.replace(p, '')\<close> for a pattern \<open>p\<close> that is not empty.\<close>

fun remove_all :: "string \<Rightarrow> string \<Rightarrow> string" where
  "remove_all p [] = []"
| "remove_all p (c # cs) =
     (if prefix p (c # cs) then remove_all p (drop (length p - 1) cs)
      else c # remove_all p cs)"

text \<open>\<open>remove_chars\<close> with its default argument \<open>chars=",()[]'"\<close>.\<close>

definition remove_chars :: "string \<Rightarrow> string" where
  "remove_chars s = filter (\<lambda>c. c \<notin> set ('',()[]'' @ [SQ])) s"

definition get_longest_string_length :: "string list \<Rightarrow> nat" where
  "get_longest_string_length strings =
     (if strings = [] then 0 else Max (set (map length strings)))"

subsection \<open>Integers and their text\<close>

definition is_digit :: "char \<Rightarrow> bool" where
  "is_digit c = (c \<in> set ''0123456789'')"

definition digit_char :: "nat \<Rightarrow> char" where
  "digit_char n = ''0123456789'' ! n"

definition digit_val :: "char \<Rightarrow> int" where
  "digit_val c = (if is_digit c then int (length (takeWhile (\<lambda>d. d \<noteq> c) ''0123456789'')) else 0)"

text \<open>\<open>str(n)\<close> for an integer \<open>n \<ge> 0\<close>, then for any integer and for an index.\<close>

function str_pos :: "int \<Rightarrow> string" where
  "str_pos n =
     (if n < 10 then [digit_char (nat n)]
      else str_pos (n div 10) @ [digit_char (nat (n mod 10))])"
  by pat_completeness auto
termination
  by (relation "measure nat") auto

declare str_pos.simps [simp del]

definition str_int :: "int \<Rightarrow> string" where
  "str_int i = (if i < 0 then CHR ''-'' # str_pos (- i) else str_pos i)"

definition str_nat :: "nat \<Rightarrow> string" where
  "str_nat n = str_pos (int n)"

text \<open>The value of a run of decimal digits, read from the left.\<close>

definition digits_val :: "string \<Rightarrow> int" where
  "digits_val ds = foldl (\<lambda>a c. 10 * a + digit_val c) 0 ds"

text \<open>
  \<open>int(s)\<close> on a string: white space is stripped on both sides (the characters 9 to
  13, 32, 133 and 160; \<open>int\<close> does not strip the separators 28 to 31), one sign is
  allowed, and the digits may be grouped by single underscores. Anything else raises
  \<open>ValueError\<close>, here \<open>None\<close>. (The limit that recent interpreters put on the number
  of digits is not modelled.)
\<close>

definition is_space :: "char \<Rightarrow> bool" where
  "is_space c =
     (let n = (of_char c :: nat)
      in (9 \<le> n \<and> n \<le> 13) \<or> n = 32 \<or> n = 133 \<or> n = 160)"

definition strip :: "string \<Rightarrow> string" where
  "strip s = rev (dropWhile is_space (rev (dropWhile is_space s)))"

fun grouped_digits :: "string \<Rightarrow> bool" where
  "grouped_digits [] = False"
| "grouped_digits [c] = is_digit c"
| "grouped_digits (c # d # cs) =
     (is_digit c \<and> (if d = CHR ''_'' then grouped_digits cs else grouped_digits (d # cs)))"

definition py_int :: "string \<Rightarrow> int option" where
  "py_int s =
     (let t = strip s;
          neg = (t \<noteq> [] \<and> hd t = CHR ''-'');
          body = (if t \<noteq> [] \<and> (hd t = CHR ''-'' \<or> hd t = CHR ''+'') then tl t else t)
      in if grouped_digits body
         then Some ((if neg then - 1 else 1) * digits_val (filter is_digit body))
         else None)"

text \<open>
  \<open>re.findall(r'\d+', line)[0]\<close>: the first maximal run of digits of the line. The
  source reads it only after the legend pattern has matched, so a digit is there.
\<close>

definition first_digits :: "string \<Rightarrow> string" where
  "first_digits line = takeWhile is_digit (dropWhile (\<lambda>c. \<not> is_digit c) line)"

section \<open>Floating-point values and their text\<close>

text \<open>
  A Python \<open>float\<close> is an exact rational, the negative zero, or one of the three
  values that are not finite. The conversions below are the ones \<open>clean_entry\<close>
  calls: \<open>format(x, '.8')\<close>, \<open>float(s)\<close> and \<open>int(x)\<close>.
\<close>

datatype pyfloat = Finite rat | NegZero | PInf | NInf | NaN

definition pow10 :: "int \<Rightarrow> rat" where
  "pow10 e = (if 0 \<le> e then 10 ^ nat e else 1 / 10 ^ nat (- e))"

definition pow2 :: "int \<Rightarrow> rat" where
  "pow2 e = (if 0 \<le> e then 2 ^ nat e else 1 / 2 ^ nat (- e))"

text \<open>The number of digits of \<open>n\<close> in base \<open>b\<close>.\<close>

function ndigits :: "int \<Rightarrow> int \<Rightarrow> int" where
  "ndigits b n = (if n \<le> 0 \<or> b < 2 then 0 else 1 + ndigits b (n div b))"
  by pat_completeness auto
termination
  by (relation "measure (\<lambda>(b, n). nat n)") (auto simp: div_less_dividend nat_less_iff zdiv_mono1 pos_imp_zdiv_pos_iff intro: int_div_less_self)

declare ndigits.simps [simp del]

text \<open>For \<open>q > 0\<close>, the exponent \<open>e\<close> with \<open>b ^ e \<le> q < b ^ (e + 1)\<close>.\<close>

definition floor_log :: "int \<Rightarrow> rat \<Rightarrow> int" where
  "floor_log b q =
     (if 1 \<le> q then ndigits b \<lfloor>q\<rfloor> - 1
      else (let k = ndigits b \<lfloor>1 / q\<rfloor>
            in if q * of_int b ^ nat (k - 1) = 1 then 1 - k else - k))"

definition round_half_even :: "rat \<Rightarrow> int" where
  "round_half_even q =
     (let f = \<lfloor>q\<rfloor>; r = q - of_int f
      in if r < 1 / 2 then f else if 1 / 2 < r then f + 1 else if even f then f else f + 1)"

text \<open>
  The digits of \<open>q > 0\<close> rounded to \<open>p\<close> significant digits, without trailing zeros,
  and the position of the decimal point after the first of them.
\<close>

definition sig_digits :: "nat \<Rightarrow> rat \<Rightarrow> string \<times> int" where
  "sig_digits p q =
     (if q = 0 then (''0'', 1)
      else (let e = floor_log 10 q;
                n = round_half_even (q / pow10 (e - int p + 1));
                (m, decpt) = (if 10 ^ p \<le> n then (10 ^ (p - 1), e + 2) else (n, e + 1))
            in (rev (dropWhile (\<lambda>c. c = CHR ''0'') (rev (str_pos m))), decpt)))"

definition PRECISION :: nat where
  "PRECISION = 8"

text \<open>
  \<open>format(x, '.p')\<close>, a format with a precision and no type: the general format with
  at least one digit after the point in fixed notation, and scientific notation as
  soon as the exponent reaches \<open>p - 1\<close>. First the text of the magnitude, from its
  digits and the position of the point.
\<close>

definition format_body :: "nat \<Rightarrow> string \<Rightarrow> int \<Rightarrow> string" where
  "format_body p ds decpt =
     (let ex = str_pos \<bar>decpt - 1\<bar>
      in if decpt \<le> - 4 \<or> int p - 1 < decpt
         then hd ds # (if tl ds = [] then [] else CHR ''.'' # tl ds) @ ''e''
              @ (if decpt - 1 < 0 then ''-'' else ''+'')
              @ (if length ex < 2 then CHR ''0'' # ex else ex)
         else if decpt \<le> 0 then ''0.'' @ replicate (nat (- decpt)) (CHR ''0'') @ ds
         else if length ds \<le> nat decpt
         then ds @ replicate (nat decpt - length ds) (CHR ''0'') @ ''.0''
         else take (nat decpt) ds @ ''.'' @ drop (nat decpt) ds)"

definition format_mag :: "nat \<Rightarrow> rat \<Rightarrow> string" where
  "format_mag p q = (case sig_digits p q of (ds, decpt) \<Rightarrow> format_body p ds decpt)"

definition format_float :: "nat \<Rightarrow> pyfloat \<Rightarrow> string" where
  "format_float p x =
     (case x of
        PInf \<Rightarrow> ''inf''
      | NInf \<Rightarrow> ''-inf''
      | NaN \<Rightarrow> ''nan''
      | NegZero \<Rightarrow> ''-'' @ format_mag p 0
      | Finite q \<Rightarrow> (if q < 0 then ''-'' else []) @ format_mag p \<bar>q\<bar>)"

text \<open>
  Rounding a magnitude \<open>q \<ge> 0\<close> to the nearest binary64 value, ties to even, with
  the sign \<open>neg\<close>.
\<close>

definition round_mag :: "rat \<Rightarrow> rat" where
  "round_mag q =
     (if q = 0 then 0
      else (let ulp = pow2 (max (floor_log 2 q) (- 1022) - 52)
            in of_int (round_half_even (q / ulp)) * ulp))"

definition round_b64 :: "bool \<Rightarrow> rat \<Rightarrow> pyfloat" where
  "round_b64 neg q =
     (let r = round_mag q
      in if 2 ^ 1024 \<le> r then (if neg then NInf else PInf)
         else if r = 0 then (if neg then NegZero else Finite 0)
         else Finite (if neg then - r else r))"

text \<open>
  \<open>float(s)\<close>. The source applies it to the text that \<open>format\<close> has just produced, so
  the grammar is the one of that text: a sign, digits, a fraction, an exponent, and
  the names of the values that are not finite. Any other text is \<open>None\<close>, the
  \<open>ValueError\<close> of the source.
\<close>

definition decimal_value :: "string \<Rightarrow> rat option" where
  "decimal_value s =
     (let ip = takeWhile is_digit s;
          r1 = dropWhile is_digit s;
          fp = (if r1 \<noteq> [] \<and> hd r1 = CHR ''.'' then takeWhile is_digit (tl r1) else []);
          r2 = (if r1 \<noteq> [] \<and> hd r1 = CHR ''.'' then dropWhile is_digit (tl r1) else r1);
          mant = of_int (digits_val (ip @ fp)) * pow10 (- int (length fp))
      in if ip = [] \<or> (r1 \<noteq> [] \<and> hd r1 = CHR ''.'' \<and> fp = []) then None
         else if r2 = [] then Some mant
         else if hd r2 = CHR ''e'' \<and> 2 \<le> length (tl r2)
                 \<and> (hd (tl r2) = CHR ''+'' \<or> hd (tl r2) = CHR ''-'')
                 \<and> list_all is_digit (tl (tl r2))
         then Some (mant * pow10 ((if hd (tl r2) = CHR ''-'' then - 1 else 1)
                                    * digits_val (tl (tl r2))))
         else None)"

definition py_float :: "string \<Rightarrow> pyfloat option" where
  "py_float s =
     (if s = ''inf'' then Some PInf else if s = ''-inf'' then Some NInf
      else if s = ''nan'' then Some NaN
      else if s \<noteq> [] \<and> hd s = CHR ''-'' then map_option (round_b64 True) (decimal_value (tl s))
      else map_option (round_b64 False) (decimal_value s))"

section \<open>The value formatter: \<open>XMGrace.clean_entry\<close>\<close>

text \<open>
  The components of a tuple. \<open>DFloatSub t x\<close> is an instance of a subclass of \<open>float\<close>
  with the value \<open>x\<close> whose \<open>__str__\<close> returns \<open>t\<close>: \<open>isinstance(datum, float)\<close> holds
  for it, and its \<open>format\<close> is the one of \<open>float\<close>.
\<close>

datatype datum = DInt int | DFloat pyfloat | DStr string | DFloatSub string pyfloat

datatype error =
    AssertionError string
  | ValueError string
  | OverflowError string
  | ValueErrorEntry string "datum list"
  | KeyError int
  | TemplateMissing

text \<open>What \<open>print\<close> writes: a fixed text, or a message built around the tuple.\<close>

datatype printed =
    Text string
  | SkippingNaN "datum list"
  | SkippingOverflow "datum list"

text \<open>
  \<open>w in str(datum).lower()\<close>. The \<open>str\<close> of a finite \<open>float\<close> is made of digits, a
  point, a sign and the letter \<open>e\<close>, so neither \<open>inf\<close> nor \<open>nan\<close> occurs in it.
\<close>

fun str_lower_has :: "string \<Rightarrow> datum \<Rightarrow> bool" where
  "str_lower_has w (DInt i) = contains w (lower (str_int i))"
| "str_lower_has w (DStr t) = contains w (lower t)"
| "str_lower_has w (DFloatSub t x) = contains w (lower t)"
| "str_lower_has w (DFloat (Finite q)) = False"
| "str_lower_has w (DFloat NegZero) = False"
| "str_lower_has w (DFloat x) = contains w (lower (format_float PRECISION x))"

text \<open>\<open>int(x)\<close> for a float: truncation, and the two errors of CPython.\<close>

definition int_of_float :: "pyfloat \<Rightarrow> error + int" where
  "int_of_float x =
     (case x of
        Finite q \<Rightarrow> Inr (if q < 0 then - \<lfloor>- q\<rfloor> else \<lfloor>q\<rfloor>)
      | NegZero \<Rightarrow> Inr 0
      | NaN \<Rightarrow> Inl (ValueError ''cannot convert float NaN to integer'')
      | _ \<Rightarrow> Inl (OverflowError ''cannot convert float infinity to integer''))"

text \<open>\<open>x == i\<close> for a float and an integer.\<close>

definition float_eq_int :: "pyfloat \<Rightarrow> int \<Rightarrow> bool" where
  "float_eq_int x i =
     (case x of Finite q \<Rightarrow> q = of_int i | NegZero \<Rightarrow> i = 0 | _ \<Rightarrow> False)"

text \<open>\<open>repr\<close> of a string, and \<open>str\<close> of the list that \<open>clean_entry\<close> builds.\<close>

definition printable :: "char \<Rightarrow> bool" where
  "printable c =
     (let n = (of_char c :: nat) in (32 \<le> n \<and> n < 127) \<or> (161 \<le> n \<and> n \<noteq> 173))"

definition repr_char :: "char \<Rightarrow> char \<Rightarrow> string" where
  "repr_char quote c =
     (if c = BSL then [BSL, BSL]
      else if c = quote then [BSL, quote]
      else if c = TAB then [BSL, CHR ''t'']
      else if c = LF then [BSL, CHR ''n'']
      else if c = CR then [BSL, CHR ''r'']
      else if printable c then [c]
      else [BSL, CHR ''x'', ''0123456789abcdef'' ! (of_char c div 16),
            ''0123456789abcdef'' ! (of_char c mod 16)])"

definition repr_str :: "string \<Rightarrow> string" where
  "repr_str t =
     (let quote = (if SQ \<in> set t \<and> DQ \<notin> set t then DQ else SQ)
      in quote # concat (map (repr_char quote) t) @ [quote])"

datatype pyval = VInt int | VStr string

fun repr_val :: "pyval \<Rightarrow> string" where
  "repr_val (VInt i) = str_int i"
| "repr_val (VStr t) = repr_str t"

fun join :: "string \<Rightarrow> string list \<Rightarrow> string" where
  "join sep [] = []"
| "join sep [x] = x"
| "join sep (x # y # ys) = x @ sep @ join sep (y # ys)"

definition str_list :: "pyval list \<Rightarrow> string" where
  "str_list vs = ''['' @ join '', '' (map repr_val vs) @ '']''"

text \<open>
  The body of the \<open>try\<close> for one component: the value that is appended to
  \<open>reformatted_entry\<close>, or the exception raised on the way.
\<close>

definition convert_float :: "pyfloat \<Rightarrow> error + pyval" where
  "convert_float x =
     (let datum = format_float PRECISION x
      in case py_float datum of
           None \<Rightarrow> Inl (ValueError (''could not convert string to float: '' @ repr_str datum))
         | Some f \<Rightarrow>
             (case int_of_float f of
                Inl e \<Rightarrow> Inl e
              | Inr i \<Rightarrow> if float_eq_int f i then Inr (VStr (str_int i)) else Inr (VStr datum)))"

fun convert :: "datum \<Rightarrow> error + pyval" where
  "convert (DFloat x) = convert_float x"
| "convert (DFloatSub t x) = convert_float x"
| "convert (DStr t) = Inr (VStr ([DQ] @ t @ [DQ]))"
| "convert (DInt i) = Inr (VInt i)"

text \<open>
  The loop of \<open>clean_entry\<close> over the components still to read, with the list built
  so far. The result is what was printed and what was returned or raised.
\<close>

fun clean_loop :: "datum list \<Rightarrow> datum list \<Rightarrow> pyval list \<Rightarrow> printed list \<times> (error + string)" where
  "clean_loop entry [] reformatted_entry =
     ([], Inr (remove_chars (str_list reformatted_entry) @ [LF]))"
| "clean_loop entry (datum # rest) reformatted_entry =
     (if str_lower_has ''inf'' datum \<or> str_lower_has ''nan'' datum
      then ([Text ''Graph skipping {entry} due to inf value.''], Inr [])
      else (case convert datum of
              Inr v \<Rightarrow> clean_loop entry rest (reformatted_entry @ [v])
            | Inl (ValueError msg) \<Rightarrow>
                if msg = ''cannot convert float NaN to integer''
                then ([SkippingNaN entry], Inr [])
                else ([], Inl (ValueErrorEntry msg entry))
            | Inl (OverflowError msg) \<Rightarrow>
                if msg = ''OverflowError: cannot convert float infinity to integer''
                then ([SkippingOverflow entry], Inr [])
                else clean_loop entry rest reformatted_entry
            | Inl e \<Rightarrow> ([], Inl e)))"

definition clean_entry :: "datum list \<Rightarrow> printed list \<times> (error + string)" where
  "clean_entry entry = clean_loop entry entry []"

section \<open>The data model: \<open>Set\<close>, \<open>Group\<close>, \<open>Graph\<close>\<close>

record set_obj =
  label :: string
  datatype_tag :: string
  entries :: "datum list list"

record group_obj =
  index :: int
  group_label :: string
  sets :: "set_obj list"

text \<open>
  The dictionaries \<open>subtitle\<close> and \<open>legend\<close> are association lists in the order of
  insertion, which is the order in which \<open>items()\<close> runs through them.
\<close>

record graph =
  description :: "string list"
  data :: "group_obj list"
  subtitle :: "(int \<times> string) list"
  legend :: "(int \<times> (int \<times> string) list) list"

text \<open>\<open>[XMGrace.clean_entry(entry) for entry in self.entries]\<close>; the first exception ends it.\<close>

fun clean_entries :: "datum list list \<Rightarrow> error + string list" where
  "clean_entries [] = Inr []"
| "clean_entries (entry # rest) =
     (case snd (clean_entry entry) of
        Inl e \<Rightarrow> Inl e
      | Inr l \<Rightarrow> (case clean_entries rest of Inl e \<Rightarrow> Inl e | Inr ls \<Rightarrow> Inr (l # ls)))"

text \<open>\<open>Set.as_list\<close>.\<close>

definition set_as_list :: "set_obj \<Rightarrow> error + string list" where
  "set_as_list s =
     (case clean_entries (entries s) of
        Inl e \<Rightarrow> Inl e
      | Inr ls \<Rightarrow> Inr ((''@type '' @ datatype_tag s @ [LF]) # ls))"

text \<open>\<open>Group.as_list\<close>: the loop over \<open>enumerate(self.sets)\<close>, from the index \<open>set_index\<close> on.\<close>

definition target_line :: "int \<Rightarrow> int \<Rightarrow> string" where
  "target_line g set_index = ''@target G'' @ str_int g @ ''.S'' @ str_int set_index @ [LF]"

fun sets_as_list :: "int \<Rightarrow> int \<Rightarrow> set_obj list \<Rightarrow> error + string list" where
  "sets_as_list g set_index [] = Inr []"
| "sets_as_list g set_index (s # rest) =
     (case set_as_list s of
        Inl e \<Rightarrow> Inl e
      | Inr ls \<Rightarrow>
          (case sets_as_list g (set_index + 1) rest of
             Inl e \<Rightarrow> Inl e
           | Inr others \<Rightarrow> Inr (target_line g set_index # ls @ [''&'' @ [LF]] @ others)))"

definition group_as_list :: "group_obj \<Rightarrow> error + string list" where
  "group_as_list g = sets_as_list (index g) 0 (sets g)"

text \<open>\<open>sum((g.as_list() for g in self.data), [])\<close>.\<close>

fun groups_as_list :: "group_obj list \<Rightarrow> error + string list" where
  "groups_as_list [] = Inr []"
| "groups_as_list (g # rest) =
     (case group_as_list g of
        Inl e \<Rightarrow> Inl e
      | Inr ls \<Rightarrow> (case groups_as_list rest of Inl e \<Rightarrow> Inl e | Inr others \<Rightarrow> Inr (ls @ others)))"

subsection \<open>\<open>Graph.__init__\<close>\<close>

text \<open>\<open>enumerate(xs)\<close>, \<open>s.expandtabs()\<close>, \<open>s.split('\n')\<close> and \<open>f'{l:{length}}'\<close>.\<close>

definition py_enumerate :: "'a list \<Rightarrow> (int \<times> 'a) list" where
  "py_enumerate xs = zip (map int [0..<length xs]) xs"

fun expandtabs :: "nat \<Rightarrow> string \<Rightarrow> string" where
  "expandtabs col [] = []"
| "expandtabs col (c # cs) =
     (if c = TAB then replicate (8 - col mod 8) (CHR '' '') @ expandtabs 0 cs
      else if c = LF \<or> c = CR then c # expandtabs 0 cs
      else c # expandtabs (Suc col) cs)"

fun split_lf :: "string \<Rightarrow> string list" where
  "split_lf [] = [[]]"
| "split_lf (c # cs) =
     (if c = LF then [] # split_lf cs
      else (case split_lf cs of [] \<Rightarrow> [[c]] | l # ls \<Rightarrow> (c # l) # ls))"

definition pad :: "nat \<Rightarrow> string \<Rightarrow> string" where
  "pad width l = l @ replicate (width - length l) (CHR '' '')"

definition legend_line :: "int \<Rightarrow> string \<Rightarrow> string" where
  \<open>legend_line S_i S_label = ''@    s'' @ str_int S_i @ '' legend  "'' @ S_label @ [DQ, LF]\<close>

definition subtitle_line :: "string \<Rightarrow> string" where
  \<open>subtitle_line G_label = ''@    subtitle "'' @ G_label @ [DQ, LF]\<close>

definition or_empty :: "string option \<Rightarrow> string" where
  "or_empty l = (case l of None \<Rightarrow> [] | Some t \<Rightarrow> t)"

type_synonym dataset = "string option \<times> (string option \<times> string \<times> datum list list) list"

text \<open>
  The fields that \<open>__init__\<close> fills from the description and the data sets; \<open>now\<close> is
  the text that \<open>time.strftime\<close> returns at that moment.
\<close>

definition description_block :: "string \<Rightarrow> string \<Rightarrow> string list" where
  \<open>description_block now descr =
     (let description_lines = split_lf (expandtabs 0 descr);
          width = get_longest_string_length description_lines;
          divider = [DQ] @ replicate width (CHR ''='') @ [DQ, LF]
      in [''@description "Last Updated: '' @ now @ [DQ, LF],
          ''@description '' @ divider]
         @ map (\<lambda>l. ''@description "'' @ pad width l @ [DQ, LF])
             (filter (\<lambda>l. l \<noteq> []) description_lines)
         @ [''@description '' @ divider])\<close>

definition make_set :: "string option \<times> string \<times> datum list list \<Rightarrow> set_obj" where
  "make_set t = (case t of (S_label, dt, es) \<Rightarrow>
     \<lparr>label = or_empty S_label, datatype_tag = dt, entries = es\<rparr>)"

definition make_group :: "int \<times> dataset \<Rightarrow> group_obj" where
  "make_group t = (case t of (G_i, G_label, groups) \<Rightarrow>
     \<lparr>index = G_i, group_label = or_empty G_label, sets = map make_set groups\<rparr>)"

definition make_legend :: "int \<times> dataset \<Rightarrow> int \<times> (int \<times> string) list" where
  "make_legend t = (case t of (G_i, G_label, groups) \<Rightarrow>
     (G_i, map (\<lambda>(S_i, S_label, dt, es). (S_i, legend_line S_i (or_empty S_label)))
             (py_enumerate groups)))"

definition Graph :: "string \<Rightarrow> string \<Rightarrow> dataset list \<Rightarrow> graph" where
  "Graph now descr datasets =
     \<lparr>description = description_block now descr,
      data = map make_group (py_enumerate datasets),
      subtitle = map (\<lambda>(G_i, G_label, groups). (G_i, subtitle_line (or_empty G_label)))
                   (py_enumerate datasets),
      legend = map make_legend (py_enumerate datasets)\<rparr>"

section \<open>The merge: \<open>Graph.create_file\<close>\<close>

text \<open>\<open>re.search(r'\@    s\d legend  \"', line)\<close>: the pattern at some position of the line.\<close>

definition legend_at :: "string \<Rightarrow> bool" where
  \<open>legend_at t =
     (prefix ''@    s'' t \<and>
      (case drop 6 t of [] \<Rightarrow> False | d # r \<Rightarrow> is_digit d \<and> prefix '' legend  "'' r))\<close>

fun re_search_legend :: "string \<Rightarrow> bool" where
  "re_search_legend [] = False"
| "re_search_legend (c # cs) = (legend_at (c # cs) \<or> re_search_legend cs)"

text \<open>The lines appended in one round of the loop, in front of those of the rounds after it.\<close>

definition emit ::
  "string list \<Rightarrow> error + string list \<times> int option \<times> bool \<Rightarrow> error + string list \<times> int option \<times> bool" where
  "emit ls r = (case r of Inl e \<Rightarrow> Inl e | Inr (out, g, found) \<Rightarrow> Inr (ls @ out, g, found))"

text \<open>\<open>self.legend[group][s]\<close> when \<open>group in self.legend and s in self.legend[group]\<close>.\<close>

definition legend_of :: "graph \<Rightarrow> int \<Rightarrow> int \<Rightarrow> string option" where
  "legend_of G g s = (case map_of (legend G) g of None \<Rightarrow> None | Some m \<Rightarrow> map_of m s)"

text \<open>
  The first step of a round, on the variable \<open>group\<close>:
  \<open>if line.startswith('@with g'): group = int(line.replace('@with g', ''))\<close>.
\<close>

definition next_group :: "int option \<Rightarrow> string \<Rightarrow> error + int option" where
  "next_group grp line =
     (if startswith line ''@with g''
      then (case py_int (remove_all ''@with g'' line) of
              None \<Rightarrow> Inl (ValueError (''invalid literal for int() with base 10: ''
                                        @ repr_str (remove_all ''@with g'' line)))
            | Some n \<Rightarrow> Inr (Some n))
      else Inr grp)"

text \<open>
  The loop over \<open>original_lines\<close>, from the value \<open>grp\<close> of the variable \<open>group\<close>.
  It returns the lines appended to \<open>lines\<close>, the last value of \<open>group\<close>, and whether
  it left by \<open>break\<close>, at the first line of a data section.
\<close>

fun scan :: "graph \<Rightarrow> int option \<Rightarrow> string list \<Rightarrow> error + string list \<times> int option \<times> bool" where
  \<open>scan G grp [] = Inr ([], grp, False)\<close>
| \<open>scan G grp (line # rest) =
     (case next_group grp line of
        Inl e \<Rightarrow> Inl e
      | Inr grp \<Rightarrow>
          if re_search_legend line then
            (case grp of
               None \<Rightarrow> Inl (AssertionError
                              ''No group (@with g#) was found in the file, before a legend.'')
             | Some g \<Rightarrow>
                 emit (case legend_of G g (digits_val (first_digits line)) of
                         None \<Rightarrow> [] | Some l \<Rightarrow> [l])
                   (scan G grp rest))
          else if startswith line ''@    subtitle "'' then
            emit (case grp of
                    None \<Rightarrow> []
                  | Some g \<Rightarrow> (case map_of (subtitle G) g of None \<Rightarrow> [] | Some t \<Rightarrow> [t]))
              (scan G grp rest)
          else if startswith line ''@target G'' then
            (case groups_as_list (data G) of
               Inl e \<Rightarrow> Inl e
             | Inr d \<Rightarrow> Inr (d, grp, True))
          else if startswith line ''@description'' then scan G grp rest
          else emit (line # (if description G \<noteq> [] \<and> startswith line ''@page size ''
                            then description G else []))
                 (scan G grp rest))\<close>

text \<open>
  The \<open>else\<close> of the loop, before the data: for each group its \<open>@with\<close> line, its
  subtitle and its legends.
\<close>

fun label_blocks :: "graph \<Rightarrow> (int \<times> string) list \<Rightarrow> error + string list" where
  "label_blocks G [] = Inr []"
| "label_blocks G ((G_i, sub) # rest) =
     (case map_of (legend G) G_i of
        None \<Rightarrow> Inl (KeyError G_i)
      | Some m \<Rightarrow>
          (case label_blocks G rest of
             Inl e \<Rightarrow> Inl e
           | Inr others \<Rightarrow> Inr ((''@with g'' @ str_int G_i @ [LF]) # sub # map snd m @ others)))"

text \<open>From \<open>original_lines\<close> to \<open>lines\<close>.\<close>

definition create_file_lines :: "graph \<Rightarrow> string list \<Rightarrow> error + string list" where
  "create_file_lines G original_lines =
     (case scan G None original_lines of
        Inl e \<Rightarrow> Inl e
      | Inr (lines, grp, found) \<Rightarrow>
          if found then Inr lines
          else (case label_blocks G (subtitle G) of
                  Inl e \<Rightarrow> Inl e
                | Inr blocks \<Rightarrow>
                    (case groups_as_list (data G) of
                       Inl e \<Rightarrow> Inl e
                     | Inr d \<Rightarrow> Inr (lines @ blocks @ d))))"

subsection \<open>Files\<close>








text \<open>The lines at which the loop leaves by \<open>break\<close>.\<close>

definition data_start :: "string \<Rightarrow> bool" where
  "data_start l = (startswith l ''@target G'' \<and> \<not> re_search_legend l)"

text \<open>What one round of the loop appends when it does not leave the loop.\<close>

definition line_out :: "graph \<Rightarrow> int option \<Rightarrow> string \<Rightarrow> string list" where
  \<open>line_out G grp line =
     (if re_search_legend line then
        (case grp of None \<Rightarrow> [] | Some g \<Rightarrow>
           (case legend_of G g (digits_val (first_digits line)) of None \<Rightarrow> [] | Some l \<Rightarrow> [l]))
      else if startswith line ''@    subtitle "'' then
        (case grp of None \<Rightarrow> []
         | Some g \<Rightarrow> (case map_of (subtitle G) g of None \<Rightarrow> [] | Some t \<Rightarrow> [t]))
      else if startswith line ''@description'' then []
      else line # (if description G \<noteq> [] \<and> startswith line ''@page size ''
                   then description G else []))\<close>

text \<open>
  The label that the caller supplies for the set \<open>s\<close> of the group \<open>g\<close>, when the data
  sets have such a set.
\<close>

definition supplied_label :: "dataset list \<Rightarrow> int \<Rightarrow> int \<Rightarrow> string option" where
  "supplied_label datasets g s =
     (if 0 \<le> g \<and> nat g < length datasets \<and> 0 \<le> s \<and> nat s < length (snd (datasets ! nat g))
      then Some (or_empty (fst (snd (datasets ! nat g) ! nat s)))
      else None)"

text \<open>
  The lines that a run writes from the new model: the description, the subtitles,
  the legends, the label blocks of the \<open>else\<close> branch and the data section.
\<close>

definition model_lines :: "graph \<Rightarrow> string set" where
  "model_lines G =
     set (description G) \<union> snd ` set (subtitle G)
     \<union> (\<Union>m \<in> snd ` set (legend G). snd ` set m)
     \<union> (case label_blocks G (subtitle G) of Inl e \<Rightarrow> {} | Inr blocks \<Rightarrow> set blocks)
     \<union> (case groups_as_list (data G) of Inl e \<Rightarrow> {} | Inr d \<Rightarrow> set d)"

text \<open>The lines that match none of the five patterns of the loop.\<close>

definition passthrough :: "string \<Rightarrow> bool" where
  \<open>passthrough l =
     (\<not> startswith l ''@with g'' \<and> \<not> re_search_legend l \<and> \<not> startswith l ''@    subtitle "''
      \<and> \<not> startswith l ''@target G'' \<and> \<not> startswith l ''@description'')\<close>

text \<open>
  The components at which \<open>clean_entry\<close> returns the empty string: the text of the
  component contains \<open>inf\<close> or \<open>nan\<close>, or its conversion raises the \<open>ValueError\<close> of a
  NaN.
\<close>

definition skips :: "datum \<Rightarrow> bool" where
  "skips d =
     (str_lower_has ''inf'' d \<or> str_lower_has ''nan'' d
      \<or> convert d = Inl (ValueError ''cannot convert float NaN to integer''))"

text \<open>The line of a tuple, when \<open>clean_entry\<close> returns one.\<close>

definition entry_line :: "datum list \<Rightarrow> string" where
  "entry_line entry = (case snd (clean_entry entry) of Inl e \<Rightarrow> [] | Inr l \<Rightarrow> l)"

text \<open>A component that is not a NaN or an infinity.\<close>

fun finite_datum :: "datum \<Rightarrow> bool" where
  "finite_datum (DFloat x) = (x \<noteq> NaN \<and> x \<noteq> PInf \<and> x \<noteq> NInf)"
| "finite_datum (DFloatSub t x) = (x \<noteq> NaN \<and> x \<noteq> PInf \<and> x \<noteq> NInf)"
| "finite_datum d = True"

text \<open>
  What is appended to \<open>lines\<close> after the loop: nothing when the loop left by \<open>break\<close>,
  and the label blocks and the data section when it ran to its end.
\<close>

definition else_lines :: "graph \<Rightarrow> bool \<Rightarrow> error + string list" where
  "else_lines G found =
     (if found then Inr []
      else (case label_blocks G (subtitle G) of
              Inl e \<Rightarrow> Inl e
            | Inr blocks \<Rightarrow>
                (case groups_as_list (data G) of
                   Inl e \<Rightarrow> Inl e
                 | Inr d \<Rightarrow> Inr (blocks @ d))))"

text \<open>The tuples that the formatter drops: \<open>clean_entry\<close> returns the empty string.\<close>

definition skipped :: "datum list \<Rightarrow> bool" where
  "skipped entry = (snd (clean_entry entry) = Inr [])"

text \<open>The components that are numbers of the built-in types \<open>int\<close> and \<open>float\<close>.\<close>

fun numeric :: "datum \<Rightarrow> bool" where
  "numeric (DInt i) = True"
| "numeric (DFloat x) = True"
| "numeric d = False"

section \<open>Shared lemmas\<close>

subsection \<open>Errors of the merge\<close>

lemma emit_Inl [simp]: "emit ls (Inl e) = Inl e"
  by (simp add: emit_def)

lemma emit_Inr [simp]: "emit ls (Inr (out, g, f)) = Inr (ls @ out, g, f)"
  by (simp add: emit_def)

lemma emit_eq_Inl [simp]: "emit ls r = Inl e \<longleftrightarrow> r = Inl e"
  by (cases r) (auto simp: emit_def)

lemma scan_assert_none:
  assumes "\<forall>p \<in> set pre. \<not> startswith p ''@with g'' \<and> \<not> data_start p"
    and "\<not> startswith l ''@with g''" and "re_search_legend l"
  shows "scan G None (pre @ l # post) =
           Inl (AssertionError ''No group (@with g#) was found in the file, before a legend.'')"
  using assms
proof (induction pre)
  case Nil
  then show ?case by (simp add: next_group_def)
next
  case (Cons p ps)
  then show ?case
    by (simp add: next_group_def data_start_def)
qed

lemma next_group_other: "\<not> startswith l ''@with g'' \<Longrightarrow> next_group g l = Inr g"
  by (simp add: next_group_def)

lemma next_group_Inl: "next_group g l = Inl e \<Longrightarrow> \<exists>m. e = ValueError m"
  by (auto simp: next_group_def split: if_splits option.splits)

lemma next_group_with:
  assumes "next_group g l = Inr g'" and "startswith l ''@with g''"
  shows "\<exists>n. g' = Some n"
proof (cases "py_int (remove_all ''@with g'' l)")
  case None
  with assms show ?thesis by (simp add: next_group_def)
next
  case (Some n)
  with assms have "g' = Some n" by (simp add: next_group_def)
  then show ?thesis by blast
qed

lemma next_group_Some:
  assumes "next_group (Some g) l = Inr g'"
  shows "\<exists>n. g' = Some n"
proof (cases "startswith l ''@with g''")
  case True
  with assms show ?thesis by (rule next_group_with)
next
  case False
  with assms show ?thesis by (auto simp: next_group_def)
qed

lemma convert_float_error:
  "convert_float x = Inl e \<Longrightarrow> (\<exists>m. e = ValueError m) \<or> (\<exists>m. e = OverflowError m)"
  by (auto simp: convert_float_def int_of_float_def Let_def split: option.splits sum.splits pyfloat.splits if_splits)

lemma convert_error:
  "convert d = Inl e \<Longrightarrow> (\<exists>m. e = ValueError m) \<or> (\<exists>m. e = OverflowError m)"
  by (cases d) (auto dest: convert_float_error)

lemma clean_loop_not_assert: "snd (clean_loop entry ds acc) \<noteq> Inl (AssertionError m)"
proof (induction ds arbitrary: acc)
  case Nil
  then show ?case by simp
next
  case (Cons d ds)
  show ?case
  proof (cases "convert d")
    case (Inl e)
    with convert_error [OF Inl] Cons show ?thesis by (auto split: if_splits)
  next
    case (Inr v)
    with Cons show ?thesis by auto
  qed
qed

lemma clean_entries_not_assert: "clean_entries es \<noteq> Inl (AssertionError m)"
  by (induction es) (auto simp: clean_entry_def clean_loop_not_assert split: sum.splits)

lemma sets_as_list_not_assert: "sets_as_list g i ss \<noteq> Inl (AssertionError m)"
  by (induction ss arbitrary: i) (auto simp: set_as_list_def clean_entries_not_assert split: sum.splits)

lemma groups_as_list_not_assert: "groups_as_list gs \<noteq> Inl (AssertionError m)"
  by (induction gs) (auto simp: group_as_list_def sets_as_list_not_assert split: sum.splits)

lemma label_blocks_not_assert: "label_blocks G ss \<noteq> Inl (AssertionError m)"
  by (induction G ss rule: label_blocks.induct) (auto split: option.splits sum.splits)

lemma scan_Some_not_assert: "scan G (Some g) ls \<noteq> Inl (AssertionError m)"
proof (induction ls arbitrary: g)
  case Nil
  then show ?case by simp
next
  case (Cons l ls)
  show ?case
  proof (cases "next_group (Some g) l")
    case (Inl e)
    then show ?thesis using next_group_Inl [OF Inl] by auto
  next
    case (Inr g')
    then obtain n where "g' = Some n" using next_group_Some by blast
    with Inr Cons show ?thesis
      by (auto simp: groups_as_list_not_assert split: sum.splits)
  qed
qed

lemma scan_None_not_assert:
  assumes "\<forall>i<length ls. re_search_legend (ls ! i) \<longrightarrow> (\<exists>j<i. startswith (ls ! j) ''@with g'')"
  shows "scan G None ls \<noteq> Inl (AssertionError m)"
  using assms
proof (induction ls)
  case Nil
  then show ?case by simp
next
  case (Cons l ls)
  show ?case
  proof (cases "startswith l ''@with g''")
    case True
    show ?thesis
    proof (cases "next_group None l")
      case (Inl e)
      then show ?thesis using next_group_Inl [OF Inl] by auto
    next
      case (Inr g')
      then obtain n where "g' = Some n" using next_group_with True by blast
      with Inr show ?thesis
        by (auto simp: groups_as_list_not_assert scan_Some_not_assert split: sum.splits)
    qed
  next
    case False
    have nl: "\<not> re_search_legend l" using Cons.prems by force
    have "\<forall>i<length ls. re_search_legend (ls ! i) \<longrightarrow> (\<exists>j<i. startswith (ls ! j) ''@with g'')"
    proof (intro allI impI)
      fix i assume i: "i < length ls" and r: "re_search_legend (ls ! i)"
      with Cons.prems obtain j where j: "j < Suc i" "startswith ((l # ls) ! j) ''@with g''"
        by (metis Suc_less_eq length_Cons nth_Cons_Suc)
      with False have "j \<noteq> 0" by (cases j) auto
      then obtain k where "j = Suc k" by (cases j) auto
      with j show "\<exists>j<i. startswith (ls ! j) ''@with g''" by auto
    qed
    from Cons.IH [OF this] nl False show ?thesis
      by (auto simp: next_group_other groups_as_list_not_assert split: sum.splits)
  qed
qed


subsection \<open>The rounds of the loop\<close>

lemma emit_emit [simp]: "emit a (emit b r) = emit (a @ b) r"
  by (cases r) (auto simp: emit_def)

lemma emit_Nil [simp]: "emit [] r = r"
  by (cases r) (auto simp: emit_def)

lemma emit_eq_Inr:
  "emit ls r = Inr (out, g, f) \<longleftrightarrow> (\<exists>out'. r = Inr (out', g, f) \<and> out = ls @ out')"
  by (cases r) (auto simp: emit_def)

lemma target_not_subtitle:
  \<open>startswith l ''@target G'' \<Longrightarrow> \<not> startswith l ''@    subtitle "''\<close>
  by (auto simp: prefix_def)

lemma scan_step:
  assumes "next_group grp l = Inr g" and "\<not> data_start l"
    and "re_search_legend l \<longrightarrow> g \<noteq> None"
  shows "scan G grp (l # rest) = emit (line_out G g l) (scan G g rest)"
  using assms
  by (cases g) (auto simp: line_out_def data_start_def)

lemma scan_break:
  assumes "next_group grp l = Inr g" and "data_start l"
  shows "scan G grp (l # rest) =
           (case groups_as_list (data G) of Inl e \<Rightarrow> Inl e | Inr d \<Rightarrow> Inr (d, g, True))"
  using assms by (auto simp: data_start_def target_not_subtitle)

declare scan.simps(2) [simp del]

lemma scan_Cons_Inr:
  assumes "scan G grp (l # rest) = Inr (out, g1, f)"
  obtains g where "next_group grp l = Inr g" and "data_start l" and "f"
      and "groups_as_list (data G) = Inr out" and "g1 = g"
  | g out' where "next_group grp l = Inr g" and "\<not> data_start l"
      and "re_search_legend l \<longrightarrow> g \<noteq> None"
      and "scan G g rest = Inr (out', g1, f)" and "out = line_out G g l @ out'"
proof (cases "next_group grp l")
  case (Inl e)
  with assms show ?thesis by (simp add: scan.simps(2))
next
  case (Inr g)
  show ?thesis
  proof (cases "data_start l")
    case True
    with Inr assms that(1) [of g] show ?thesis
      by (auto simp: scan_break split: sum.splits)
  next
    case False
    have leg: "re_search_legend l \<longrightarrow> g \<noteq> None"
      using assms Inr by (cases g) (auto simp: scan.simps(2))
    from scan_step [OF Inr False leg] assms
    have "emit (line_out G g l) (scan G g rest) = Inr (out, g1, f)" by simp
    then obtain out' where "scan G g rest = Inr (out', g1, f)" "out = line_out G g l @ out'"
      by (auto simp: emit_eq_Inr)
    with that(2) [of g out'] Inr False leg show ?thesis by blast
  qed
qed

lemma scan_append:
  "scan G grp xs = Inr (o1, g1, False) \<Longrightarrow> scan G grp (xs @ ys) = emit o1 (scan G g1 ys)"
proof (induction xs arbitrary: grp o1)
  case Nil
  then show ?case by simp
next
  case (Cons x xs)
  from Cons.prems show ?case
  proof (cases rule: scan_Cons_Inr)
    case (1 g)
    then show ?thesis by simp
  next
    case (2 g out')
    from Cons.IH [OF 2(4)] have "scan G g (xs @ ys) = emit out' (scan G g1 ys)" .
    with scan_step [OF 2(1) 2(2) 2(3), of G "xs @ ys"] 2(5) show ?thesis by simp
  qed
qed

subsection \<open>Legend lines\<close>

lemma not_digit_simps [simp]:
  "\<not> is_digit (CHR ''@'')" "\<not> is_digit (CHR '' '')" "\<not> is_digit (CHR ''s'')"
  by (simp_all add: is_digit_def)

lemma first_digits_legend:
  \<open>is_digit d \<Longrightarrow> digits_val (first_digits (''@    s'' @ [d] @ '' legend  "'' @ rest)) = digit_val d\<close>
  by (simp add: first_digits_def digits_val_def)

lemma legend_form_matches:
  \<open>is_digit d \<Longrightarrow> re_search_legend (''@    s'' @ [d] @ '' legend  "'' @ rest)\<close>
  by (simp add: legend_at_def)

lemma map_of_py_enumerate:
  "map_of (py_enumerate xs) i = (if 0 \<le> i \<and> nat i < length xs then Some (xs ! nat i) else None)"
proof (cases "0 \<le> i \<and> nat i < length xs")
  case True
  have "distinct (map int [0..<length xs])"
    by (simp add: distinct_map)
  from map_of_zip_nth [OF _ this, of xs "nat i"] True show ?thesis
    by (simp add: py_enumerate_def)
next
  case False
  then have "i \<notin> set (map int [0..<length xs])" by auto
  then have "map_of (zip (map int [0..<length xs]) xs) i = None"
    using map_of_zip_is_None [of "map int [0..<length xs]" xs i] by simp
  with False show ?thesis by (auto simp: py_enumerate_def)
qed

lemma map_of_map_keyed:
  "map_of (map (\<lambda>(k, v). (k, f k v)) xs) k = map_option (f k) (map_of xs k)"
  by (induction xs) auto

lemma legend_of_Graph:
  "legend_of (Graph now descr datasets) g s =
     map_option (legend_line s) (supplied_label datasets g s)"
proof -
  have ml: "make_legend = (\<lambda>(G_i, t). (G_i, map (\<lambda>(S_i, S_label, dt, es). (S_i, legend_line S_i (or_empty S_label)))
             (py_enumerate (snd t))))"
    by (auto simp: make_legend_def fun_eq_iff)
  have inner: "map_of (map (\<lambda>(S_i, S_label, dt, es). (S_i, legend_line S_i (or_empty S_label))) (py_enumerate gs)) s
      = map_option (\<lambda>t. legend_line s (or_empty (fst t))) (map_of (py_enumerate gs) s)" for gs :: "(string option \<times> string \<times> datum list list) list"
    using map_of_map_keyed [of "\<lambda>S_i t. legend_line S_i (or_empty (fst t))" "py_enumerate gs" s]
    by (simp add: case_prod_unfold)
  show ?thesis
    unfolding legend_of_def Graph_def ml
    by (simp add: map_of_map_keyed map_of_py_enumerate inner supplied_label_def)
qed

subsection \<open>Where the lines of the output come from\<close>

lemma line_out_cases:
  assumes "x \<in> set (line_out G g l)"
  shows "x \<in> model_lines G \<or> (x = l \<and> \<not> re_search_legend l \<and> \<not> startswith l ''@description'')"
proof -
  have leg: "legend_of G n s = Some x \<Longrightarrow> x \<in> model_lines G" for n s
    by (auto simp: legend_of_def model_lines_def split: option.splits dest!: map_of_SomeD)
        (metis image_eqI snd_conv)
  have sub: "map_of (subtitle G) n = Some x \<Longrightarrow> x \<in> model_lines G" for n
    by (auto simp: model_lines_def dest!: map_of_SomeD) (metis image_eqI snd_conv)
  from assms show ?thesis
    by (auto simp: line_out_def leg sub split: if_splits option.splits)
       (auto simp: model_lines_def)
qed


subsection \<open>Lines that are copied\<close>

lemma line_out_subseq:
  "subseq (if passthrough l then [l] else []) (line_out G g l)"
  by (auto simp: line_out_def passthrough_def)

lemma line_out_count:
  assumes "passthrough x" and "x \<notin> model_lines G"
  shows "count_list (line_out G g l) x = (if l = x then 1 else 0)"
proof (cases "l = x")
  case True
  have d: "x \<notin> set (description G)"
    using assms(2) by (simp add: model_lines_def)
  have lo: "line_out G g x = x # (if description G \<noteq> [] \<and> startswith x ''@page size ''
                   then description G else [])"
    using assms(1) by (simp add: line_out_def passthrough_def)
  have z: "count_list (description G) x = 0"
    using d by (rule count_notin)
  have "count_list (x # (if C then description G else [])) x = 1" for C
    using z by simp
  then have "count_list (line_out G g x) x = 1"
    unfolding lo .
  with True show ?thesis
    by auto
next
  case False
  have "x \<notin> set (line_out G g l)"
  proof
    assume "x \<in> set (line_out G g l)"
    from line_out_cases [OF this] assms(2) False show False by auto
  qed
  with False show ?thesis
    by simp
qed

lemma scan_passthrough:
  "scan G grp ls = Inr (out, g1, f) \<Longrightarrow>
     subseq (filter passthrough (takeWhile (\<lambda>l. \<not> data_start l) ls)) out
     \<and> (passthrough x \<and> x \<notin> model_lines G \<longrightarrow>
          count_list out x = count_list (takeWhile (\<lambda>l. \<not> data_start l) ls) x)"
proof (induction ls arbitrary: grp out)
  case Nil
  then show ?case by simp
next
  case (Cons l ls)
  from Cons.prems show ?case
  proof (cases rule: scan_Cons_Inr)
    case (1 g)
    then have "x \<notin> model_lines G \<Longrightarrow> x \<notin> set out"
      by (auto simp: model_lines_def)
    with 1 show ?thesis by auto
  next
    case (2 g out')
    from Cons.IH [OF 2(4)]
    have ih1: "subseq (filter passthrough (takeWhile (\<lambda>l. \<not> data_start l) ls)) out'"
      and ih2: "passthrough x \<and> x \<notin> model_lines G \<longrightarrow>
          count_list out' x = count_list (takeWhile (\<lambda>l. \<not> data_start l) ls) x"
      by auto
    have "subseq ((if passthrough l then [l] else []) @ filter passthrough (takeWhile (\<lambda>l. \<not> data_start l) ls))
            (line_out G g l @ out')"
      by (rule list_emb_append_mono [OF line_out_subseq ih1])
    with 2 ih2 show ?thesis
      by (auto simp: line_out_count)
  qed
qed

subsection \<open>The text of a float is read back\<close>

lemma less_10_cases:
  "(k::nat) < 10 \<Longrightarrow> k = 0 \<or> k = 1 \<or> k = 2 \<or> k = 3 \<or> k = 4 \<or> k = 5 \<or> k = 6 \<or> k = 7 \<or> k = 8 \<or> k = 9"
  by arith

lemma is_digit_digit_char: "k < 10 \<Longrightarrow> is_digit (digit_char k)"
  by (drule less_10_cases) (auto simp: is_digit_def digit_char_def)

lemma str_pos_digits: "list_all is_digit (str_pos n)"
proof (induction n rule: str_pos.induct)
  case (1 n)
  show ?case
  proof (cases "n < 10")
    case True
    then have "nat n < 10" by simp
    with True show ?thesis
      by (subst str_pos.simps) (simp add: is_digit_digit_char)
  next
    case False
    then have "nat (n mod 10) < 10" by simp
    with False 1 show ?thesis
      by (subst str_pos.simps) (simp add: is_digit_digit_char)
  qed
qed

lemma str_pos_nonempty: "str_pos n \<noteq> []"
  by (subst str_pos.simps) simp

lemma digit_char_nonzero: "0 < k \<Longrightarrow> k < 10 \<Longrightarrow> digit_char k \<noteq> CHR ''0''"
  by (drule less_10_cases) (auto simp: digit_char_def)

lemma str_pos_has_nonzero: "0 < n \<Longrightarrow> \<exists>c \<in> set (str_pos n). c \<noteq> CHR ''0''"
proof (induction n rule: str_pos.induct)
  case (1 n)
  show ?case
  proof (cases "n < 10")
    case True
    with 1(2) have "0 < nat n" "nat n < 10" by simp_all
    then have "digit_char (nat n) \<noteq> CHR ''0''" by (rule digit_char_nonzero)
    with True show ?thesis by (subst str_pos.simps) simp
  next
    case False
    then have "0 < n div 10" by simp
    with 1(1) False obtain c where "c \<in> set (str_pos (n div 10))" "c \<noteq> CHR ''0''" by blast
    with False show ?thesis by (subst str_pos.simps) auto
  qed
qed

lemma strip_zeros_digits:
  assumes "0 < m"
  shows "rev (dropWhile (\<lambda>c. c = CHR ''0'') (rev (str_pos m))) \<noteq> []
         \<and> list_all is_digit (rev (dropWhile (\<lambda>c. c = CHR ''0'') (rev (str_pos m))))"
proof -
  from str_pos_has_nonzero [OF assms] have "dropWhile (\<lambda>c. c = CHR ''0'') (rev (str_pos m)) \<noteq> []"
    by (auto simp: dropWhile_eq_Nil_conv)
  moreover have "list_all is_digit (dropWhile (\<lambda>c. c = CHR ''0'') (rev (str_pos m)))"
    using str_pos_digits [of m] set_dropWhileD [of _ "\<lambda>c. c = CHR ''0''" "rev (str_pos m)"]
    by (auto simp: list_all_iff)
  ultimately show ?thesis by (simp add: list_all_iff)
qed

lemma not_digit_punct [simp]:
  "\<not> is_digit (CHR ''.'')" "\<not> is_digit (CHR ''e'')" "\<not> is_digit (CHR ''+'')" "\<not> is_digit (CHR ''-'')"
  "is_digit (CHR ''0'')"
  by (simp_all add: is_digit_def)

lemma takeWhile_digits_stop:
  "list_all is_digit ds \<Longrightarrow> \<not> is_digit c \<Longrightarrow> takeWhile is_digit (ds @ c # r) = ds"
  by (induction ds) auto

lemma dropWhile_digits_stop:
  "list_all is_digit ds \<Longrightarrow> \<not> is_digit c \<Longrightarrow> dropWhile is_digit (ds @ c # r) = c # r"
  by (induction ds) auto

lemma takeWhile_digits_all: "list_all is_digit ds \<Longrightarrow> takeWhile is_digit ds = ds"
  by (induction ds) auto

lemma dropWhile_digits_all: "list_all is_digit ds \<Longrightarrow> dropWhile is_digit ds = []"
  by (induction ds) auto

lemma decimal_exp:
  assumes "is_digit d" and "list_all is_digit fr" and "list_all is_digit ex" and "ex \<noteq> []"
    and "sg = CHR ''+'' \<or> sg = CHR ''-''"
  shows "decimal_value (d # (if fr = [] then [] else CHR ''.'' # fr) @ ''e'' @ [sg] @ ex) \<noteq> None"
proof (cases "fr = []")
  case True
  have "takeWhile is_digit (d # CHR ''e'' # sg # ex) = [d]"
    "dropWhile is_digit (d # CHR ''e'' # sg # ex) = CHR ''e'' # sg # ex"
    using assms(1) by simp_all
  with True assms show ?thesis
    by (auto simp: decimal_value_def Let_def Suc_le_eq)
next
  case False
  have a: "takeWhile is_digit (d # CHR ''.'' # fr @ CHR ''e'' # sg # ex) = [d]"
    "dropWhile is_digit (d # CHR ''.'' # fr @ CHR ''e'' # sg # ex) = CHR ''.'' # fr @ CHR ''e'' # sg # ex"
    using assms(1) by simp_all
  have b: "takeWhile is_digit (fr @ CHR ''e'' # sg # ex) = fr"
    "dropWhile is_digit (fr @ CHR ''e'' # sg # ex) = CHR ''e'' # sg # ex"
    using assms(2) by (simp_all add: takeWhile_digits_stop dropWhile_digits_stop)
  from False assms a b show ?thesis
    by (auto simp: decimal_value_def Let_def Suc_le_eq)
qed

lemma decimal_fixed:
  assumes "list_all is_digit ip" and "ip \<noteq> []" and "list_all is_digit fr" and "fr \<noteq> []"
  shows "decimal_value (ip @ ''.'' @ fr) \<noteq> None"
proof -
  have a: "takeWhile is_digit (ip @ CHR ''.'' # fr) = ip"
    "dropWhile is_digit (ip @ CHR ''.'' # fr) = CHR ''.'' # fr"
    using assms(1) by (simp_all add: takeWhile_digits_stop dropWhile_digits_stop)
  have b: "takeWhile is_digit fr = fr" "dropWhile is_digit fr = []"
    using assms(3) by (simp_all add: takeWhile_digits_all dropWhile_digits_all)
  from assms show ?thesis
    by (simp add: decimal_value_def Let_def takeWhile_digits_stop dropWhile_digits_stop
        takeWhile_digits_all dropWhile_digits_all)
qed

lemma decimal_format_body:
  assumes "ds \<noteq> []" and "list_all is_digit ds"
  shows "decimal_value (format_body p ds decpt) \<noteq> None"
proof -
  define ex where "ex = str_pos \<bar>decpt - 1\<bar>"
  define ex2 where "ex2 = (if length ex < 2 then CHR ''0'' # ex else ex)"
  have ex2: "list_all is_digit ex2" "ex2 \<noteq> []"
    using str_pos_digits [of "\<bar>decpt - 1\<bar>"] str_pos_nonempty [of "\<bar>decpt - 1\<bar>"]
    by (auto simp: ex2_def ex_def)
  from assms obtain d fr where ds: "ds = d # fr" by (cases ds) auto
  with assms have d: "is_digit d" "list_all is_digit fr" by auto
  consider (e) "decpt \<le> - 4 \<or> int p - 1 < decpt"
    | (z) "\<not> (decpt \<le> - 4 \<or> int p - 1 < decpt)" "decpt \<le> 0"
    | (i) "\<not> (decpt \<le> - 4 \<or> int p - 1 < decpt)" "\<not> decpt \<le> 0" "length ds \<le> nat decpt"
    | (m) "\<not> (decpt \<le> - 4 \<or> int p - 1 < decpt)" "\<not> decpt \<le> 0" "\<not> length ds \<le> nat decpt"
    by blast
  then show ?thesis
  proof cases
    case e
    have "decimal_value (d # (if fr = [] then [] else CHR ''.'' # fr) @ ''e''
            @ [if decpt - 1 < 0 then CHR ''-'' else CHR ''+''] @ ex2) \<noteq> None"
      by (rule decimal_exp [OF d ex2]) simp
    with e show ?thesis
      by (simp add: format_body_def Let_def ds ex2_def ex_def split: if_splits)
  next
    case z
    have "decimal_value (''0'' @ ''.'' @ (replicate (nat (- decpt)) (CHR ''0'') @ ds)) \<noteq> None"
      using assms by (intro decimal_fixed) (auto simp: list_all_iff)
    with z show ?thesis by (simp add: format_body_def Let_def)
  next
    case i
    have "decimal_value ((ds @ replicate (nat decpt - length ds) (CHR ''0'')) @ ''.'' @ ''0'') \<noteq> None"
      using assms by (intro decimal_fixed) (auto simp: list_all_iff)
    with i show ?thesis by (simp add: format_body_def Let_def)
  next
    case m
    have "decimal_value (take (nat decpt) ds @ ''.'' @ drop (nat decpt) ds) \<noteq> None"
      using assms m by (intro decimal_fixed) (auto simp: list_all_iff dest: in_set_takeD in_set_dropD)
    with m show ?thesis by (simp add: format_body_def Let_def)
  qed
qed

subsection \<open>The digits of a magnitude\<close>

lemma pow10_powi: "pow10 e = 10 powi e"
  by (simp add: pow10_def power_int_def inverse_eq_divide power_one_over)

lemma pow2_powi: "pow2 e = 2 powi e"
  by (simp add: pow2_def power_int_def inverse_eq_divide power_one_over)

lemma div_mod_bounds:
  assumes "(2::int) \<le> b"
  shows "b * (n div b) \<le> n" and "n < b * (n div b) + b"
proof -
  have "b * (n div b) + n mod b = n" by simp
  moreover have "0 \<le> n mod b" "n mod b < b" using assms by simp_all
  ultimately show "b * (n div b) \<le> n" and "n < b * (n div b) + b" by linarith+
qed

lemma ndigits_bounds:
  "2 \<le> b \<Longrightarrow> 0 < n \<Longrightarrow>
     1 \<le> ndigits b n \<and> b ^ nat (ndigits b n - 1) \<le> n \<and> n < b ^ nat (ndigits b n)"
proof (induction b n rule: ndigits.induct)
  case (1 b n)
  show ?case
  proof (cases "n div b \<le> 0")
    case True
    with 1(2,3) have "n < b"
      by (smt (verit, ccfv_SIG) nonneg1_imp_zdiv_pos_iff)
    moreover from True have "ndigits b (n div b) = 0" by (subst ndigits.simps) simp
    ultimately show ?thesis using 1(2,3) by (subst (1 2 3) ndigits.simps) simp
  next
    case False
    then have pos: "0 < n div b" by simp
    define k where "k = ndigits b (n div b)"
    from 1(1) 1(2,3) pos have ih: "1 \<le> k" "b ^ nat (k - 1) \<le> n div b" "n div b < b ^ nat k"
      by (auto simp: k_def)
    have nk: "ndigits b n = 1 + k"
      using 1(2,3) by (subst ndigits.simps) (simp add: k_def)
    have "b ^ nat k = b * b ^ nat (k - 1)"
      using ih(1) by (simp add: nat_diff_distrib power_eq_if)
    moreover have "b * b ^ nat (k - 1) \<le> b * (n div b)"
      using ih(2) 1(2) by (simp add: mult_left_mono)
    ultimately have lo: "b ^ nat k \<le> n" using div_mod_bounds(1) [OF 1(2), of n] by linarith
    have "b * (n div b) + b \<le> b * b ^ nat k"
    proof -
      have "n div b + 1 \<le> b ^ nat k" using ih(3) by simp
      then have "b * (n div b + 1) \<le> b * b ^ nat k" using 1(2) by (simp add: mult_left_mono)
      then show ?thesis by (simp add: distrib_left)
    qed
    then have hi: "n < b ^ nat (1 + k)"
      using ih(1) div_mod_bounds(2) [OF 1(2), of n] by (simp add: nat_add_distrib)
    from lo hi ih(1) show ?thesis by (simp add: nk)
  qed
qed

lemma floor_log_lower:
  assumes "0 < q"
  shows "pow10 (floor_log 10 q) \<le> q"
proof (cases "1 \<le> q")
  case True
  then have n: "0 < \<lfloor>q\<rfloor>" by simp
  from ndigits_bounds [OF _ n, of 10]
  have k: "1 \<le> ndigits 10 \<lfloor>q\<rfloor>" "10 ^ nat (ndigits 10 \<lfloor>q\<rfloor> - 1) \<le> \<lfloor>q\<rfloor>" by simp_all
  have "(of_int (10 ^ nat (ndigits 10 \<lfloor>q\<rfloor> - 1)) :: rat) \<le> of_int \<lfloor>q\<rfloor>"
    using k(2) by (simp only: of_int_le_iff)
  also have "\<dots> \<le> q" by simp
  finally show ?thesis using True k(1) by (simp add: floor_log_def pow10_def)
next
  case False
  define k where "k = ndigits 10 \<lfloor>1 / q\<rfloor>"
  from False assms have "1 < 1 / q" by simp
  then have n: "0 < \<lfloor>1 / q\<rfloor>" by simp
  from ndigits_bounds [OF _ n, of 10]
  have kb: "1 \<le> k" "\<lfloor>1 / q\<rfloor> < 10 ^ nat k" by (simp_all add: k_def)
  show ?thesis
  proof (cases "q * 10 ^ nat (k - 1) = 1")
    case True
    have fl: "floor_log 10 q = 1 - k"
      using True False by (simp add: floor_log_def k_def Let_def)
    have "pow10 (1 - k) = 1 / 10 ^ nat (k - 1)"
      using kb(1) by (cases "k = 1") (auto simp: pow10_def)
    moreover from True have "1 / 10 ^ nat (k - 1) = q" by (simp add: field_simps)
    ultimately have "pow10 (1 - k) = q" by simp
    then show ?thesis unfolding fl by simp
  next
    case ne: False
    have "1 / q < of_int (\<lfloor>1 / q\<rfloor> + 1)" by linarith
    also have "\<dots> \<le> of_int (10 ^ nat k)" using kb(2) by (simp only: of_int_le_iff)
    finally have "1 / q < 10 ^ nat k" by simp
    with assms have "1 / 10 ^ nat k \<le> q"
      by (simp add: field_simps)
    moreover have "floor_log 10 q = - k"
      using ne False by (simp add: floor_log_def k_def Let_def)
    moreover have "pow10 (- k) = 1 / 10 ^ nat k"
      using kb(1) by (auto simp: pow10_def)
    ultimately show ?thesis by simp
  qed
qed

lemma round_half_even_bounds: "\<lfloor>x\<rfloor> \<le> round_half_even x \<and> round_half_even x \<le> \<lfloor>x\<rfloor> + 1"
  by (simp add: round_half_even_def Let_def)

lemma round_half_even_of_int [simp]: "round_half_even (of_int i) = i"
  by (simp add: round_half_even_def Let_def)

lemma pow10_pos [simp]: "0 < pow10 e"
  by (simp add: pow10_def)

lemma pow10_diff: "pow10 a / pow10 b = pow10 (a - b)"
  by (simp add: pow10_powi power_int_diff)

lemma sig_digits_digits:
  assumes "0 \<le> q" and "0 < p"
  shows "fst (sig_digits p q) \<noteq> [] \<and> list_all is_digit (fst (sig_digits p q))"
proof (cases "q = 0")
  case True
  then show ?thesis by (simp add: sig_digits_def)
next
  case False
  with assms have q: "0 < q" by simp
  define e where "e = floor_log 10 q"
  define n where "n = round_half_even (q / pow10 (e - int p + 1))"
  define m where "m = (if 10 ^ p \<le> n then 10 ^ (p - 1) else n)"
  have "pow10 e \<le> q" unfolding e_def by (rule floor_log_lower [OF q])
  then have "pow10 e / pow10 (e - int p + 1) \<le> q / pow10 (e - int p + 1)"
    by (rule divide_right_mono) (rule less_imp_le [OF pow10_pos])
  moreover have "pow10 e / pow10 (e - int p + 1) = 10 ^ (p - 1)"
  proof -
    have "pow10 e / pow10 (e - int p + 1) = pow10 (e - (e - int p + 1))"
      by (rule pow10_diff)
    also have "e - (e - int p + 1) = int p - 1" by simp
    also have "pow10 (int p - 1) = 10 ^ (p - 1)"
      using assms(2) by (simp add: pow10_def nat_diff_distrib)
    finally show ?thesis .
  qed
  ultimately have "(1::rat) \<le> q / pow10 (e - int p + 1)"
    by (smt (verit) one_le_numeral one_le_power order_trans)
  then have "1 \<le> \<lfloor>q / pow10 (e - int p + 1)\<rfloor>" by simp
  with round_half_even_bounds [of "q / pow10 (e - int p + 1)"] have "0 < n"
    unfolding n_def by linarith
  then have "0 < m" by (simp add: m_def)
  have "fst (sig_digits p q) = rev (dropWhile (\<lambda>c. c = CHR ''0'') (rev (str_pos m)))"
    using False by (simp add: sig_digits_def Let_def e_def n_def m_def split: prod.splits if_splits)
  with strip_zeros_digits [OF \<open>0 < m\<close>] show ?thesis by simp
qed

lemma decimal_format_mag:
  assumes "0 \<le> q" and "0 < p"
  shows "decimal_value (format_mag p q) \<noteq> None"
proof -
  obtain ds decpt where sd: "sig_digits p q = (ds, decpt)" by (cases "sig_digits p q")
  with sig_digits_digits [OF assms] have "ds \<noteq> []" "list_all is_digit ds" by auto
  then have "decimal_value (format_body p ds decpt) \<noteq> None" by (rule decimal_format_body)
  then show ?thesis by (simp add: format_mag_def sd)
qed

lemma format_mag_head:
  assumes "0 \<le> q" and "0 < p"
  shows "format_mag p q \<noteq> [] \<and> is_digit (hd (format_mag p q))"
proof -
  obtain ds decpt where sd: "sig_digits p q = (ds, decpt)" by (cases "sig_digits p q")
  with sig_digits_digits [OF assms] have ds: "ds \<noteq> []" "list_all is_digit ds" by auto
  then obtain d fr where "ds = d # fr" "is_digit d" by (cases ds) auto
  then show ?thesis
    by (auto simp: format_mag_def sd format_body_def Let_def hd_append)
qed

subsection \<open>What \<open>clean_entry\<close> returns\<close>

lemma PRECISION_pos: "0 < PRECISION"
  by (simp add: PRECISION_def)

lemma round_b64_not_nan: "round_b64 neg v \<noteq> NaN"
  by (simp add: round_b64_def Let_def)

lemma py_float_format_Finite:
  assumes "0 < p"
  shows "\<exists>v. decimal_value (format_mag p \<bar>q\<bar>) = Some v
             \<and> py_float (format_float p (Finite q)) = Some (round_b64 (q < 0) v)"
proof -
  have m: "0 \<le> \<bar>q\<bar>" by simp
  from decimal_format_mag [OF m assms] obtain v where v: "decimal_value (format_mag p \<bar>q\<bar>) = Some v"
    by auto
  from format_mag_head [OF m assms] obtain d t where f: "format_mag p \<bar>q\<bar> = d # t" "is_digit d"
    by (cases "format_mag p \<bar>q\<bar>") auto
  then have "d \<noteq> CHR ''i'' \<and> d \<noteq> CHR ''-'' \<and> d \<noteq> CHR ''n''"
    by (auto simp: is_digit_def)
  with f v have "py_float (format_float p (Finite q)) = Some (round_b64 (q < 0) v)"
    by (cases "q < 0") (auto simp: py_float_def format_float_def)
  with v show ?thesis by blast
qed

lemma py_float_format_NegZero:
  assumes "0 < p"
  shows "\<exists>v. decimal_value (format_mag p 0) = Some v
             \<and> py_float (format_float p NegZero) = Some (round_b64 True v)"
proof -
  have m: "(0::rat) \<le> 0" by simp
  from decimal_format_mag [OF m assms] obtain v where v: "decimal_value (format_mag p 0) = Some v"
    by auto
  from format_mag_head [OF m assms] obtain d t where f: "format_mag p 0 = d # t" "is_digit d"
    by (cases "format_mag p 0") auto
  then have "d \<noteq> CHR ''i''"
    by (auto simp: is_digit_def)
  with f v have "py_float (format_float p NegZero) = Some (round_b64 True v)"
    by (auto simp: py_float_def format_float_def)
  with v show ?thesis by blast
qed

lemma convert_float_Inl:
  assumes "convert_float x = Inl e"
  shows "(x = NaN \<and> e = ValueError ''cannot convert float NaN to integer'')
         \<or> e = OverflowError ''cannot convert float infinity to integer''"
proof (cases x)
  case (Finite q)
  from py_float_format_Finite [OF PRECISION_pos, of q]
  obtain v where f: "py_float (format_float PRECISION (Finite q)) = Some (round_b64 (q < 0) v)" by auto
  with assms Finite round_b64_not_nan [of "q < 0" v] show ?thesis
    by (auto simp: convert_float_def int_of_float_def Let_def split: pyfloat.splits if_splits)
next
  case NegZero
  from py_float_format_NegZero [OF PRECISION_pos]
  obtain v where f: "py_float (format_float PRECISION NegZero) = Some (round_b64 True v)" by auto
  with assms NegZero round_b64_not_nan [of True v] show ?thesis
    by (auto simp: convert_float_def int_of_float_def Let_def split: pyfloat.splits if_splits)
next
  case PInf
  with assms show ?thesis
    by (simp add: convert_float_def format_float_def py_float_def int_of_float_def)
next
  case NInf
  with assms show ?thesis
    by (simp add: convert_float_def format_float_def py_float_def int_of_float_def)
next
  case NaN
  with assms show ?thesis
    by (simp add: convert_float_def format_float_def py_float_def int_of_float_def)
qed

lemma convert_Inl:
  assumes "convert d = Inl e"
  shows "e = ValueError ''cannot convert float NaN to integer''
         \<or> e = OverflowError ''cannot convert float infinity to integer''"
  using assms by (cases d) (auto dest: convert_float_Inl)

lemma clean_loop_Cons:
  "clean_loop entry (d # ds) acc =
     (if str_lower_has ''inf'' d \<or> str_lower_has ''nan'' d
      then ([Text ''Graph skipping {entry} due to inf value.''], Inr [])
      else if convert d = Inl (ValueError ''cannot convert float NaN to integer'')
      then ([SkippingNaN entry], Inr [])
      else clean_loop entry ds (case convert d of Inl e \<Rightarrow> acc | Inr v \<Rightarrow> acc @ [v]))"
proof (cases "convert d")
  case (Inl e)
  from convert_Inl [OF Inl] Inl show ?thesis by auto
next
  case (Inr v)
  then show ?thesis by simp
qed

declare clean_loop.simps(2) [simp del]

lemma clean_loop_skip:
  "\<exists>d \<in> set ds. skips d \<Longrightarrow>
     snd (clean_loop entry ds acc) = Inr [] \<and> fst (clean_loop entry ds acc) \<noteq> []"
proof (induction ds arbitrary: acc)
  case Nil
  then show ?case by simp
next
  case (Cons a ds)
  show ?case
  proof (cases "skips a")
    case True
    then show ?thesis by (auto simp: clean_loop_Cons skips_def)
  next
    case False
    with Cons.prems have "\<exists>d \<in> set ds. skips d" by auto
    from Cons.IH [OF this] False show ?thesis
      by (simp add: clean_loop_Cons skips_def)
  qed
qed

lemma clean_loop_no_skip:
  "\<forall>d \<in> set ds. \<not> skips d \<Longrightarrow>
     \<exists>vs. clean_loop entry ds acc = ([], Inr (remove_chars (str_list vs) @ [LF]))"
proof (induction ds arbitrary: acc)
  case Nil
  then show ?case by auto
next
  case (Cons a ds)
  then have "\<not> skips a" "\<forall>d \<in> set ds. \<not> skips d" by auto
  with Cons.IH [of "case convert a of Inl e \<Rightarrow> acc | Inr v \<Rightarrow> acc @ [v]"] show ?case
    by (simp add: clean_loop_Cons skips_def)
qed

lemma clean_entry_skip_iff:
  "snd (clean_entry entry) = Inr [] \<longleftrightarrow> (\<exists>d \<in> set entry. skips d)"
proof
  assume "\<exists>d \<in> set entry. skips d"
  then show "snd (clean_entry entry) = Inr []"
    unfolding clean_entry_def using clean_loop_skip by blast
next
  assume a: "snd (clean_entry entry) = Inr []"
  show "\<exists>d \<in> set entry. skips d"
  proof (rule ccontr)
    assume "\<not> (\<exists>d \<in> set entry. skips d)"
    then have "\<forall>d \<in> set entry. \<not> skips d" by blast
    from clean_loop_no_skip [OF this, of entry "[]"] a show False
      by (auto simp: clean_entry_def)
  qed
qed

lemma clean_entry_total: "snd (clean_entry entry) = Inr (entry_line entry)"
proof (cases "\<exists>d \<in> set entry. skips d")
  case True
  then have "snd (clean_entry entry) = Inr []" by (simp add: clean_entry_skip_iff)
  then show ?thesis by (simp add: entry_line_def)
next
  case False
  then have "\<forall>d \<in> set entry. \<not> skips d" by blast
  from clean_loop_no_skip [OF this, of entry "[]"] show ?thesis
    by (auto simp: clean_entry_def entry_line_def)
qed

lemma clean_entries_total: "clean_entries es = Inr (map entry_line es)"
  by (induction es) (simp_all add: clean_entry_total)

lemma skips_non_finite: "skips (DFloat NaN)" "skips (DFloat PInf)" "skips (DFloat NInf)"
  by code_simp+

lemma create_file_lines_else:
  "create_file_lines G ls =
     (case scan G None ls of
        Inl e \<Rightarrow> Inl e
      | Inr (lines, g, found) \<Rightarrow>
          (case else_lines G found of Inl e \<Rightarrow> Inl e | Inr tail \<Rightarrow> Inr (lines @ tail)))"
  by (auto simp: create_file_lines_def else_lines_def split: sum.splits)


text \<open>
  A tuple with a built-in float that is NaN or an infinity is skipped: no line, a
  message, no exception, and the tuples after it are still converted.
\<close>

lemma builtin_non_finite_skipped:
  assumes "DFloat x \<in> set entry" and "x = NaN \<or> x = PInf \<or> x = NInf"
  shows "snd (clean_entry entry) = Inr [] \<and> fst (clean_entry entry) \<noteq> []
         \<and> clean_entries (entry # rest) = Inr ([] # map entry_line rest)"
proof -
  from assms have "\<exists>d \<in> set entry. skips d"
    using skips_non_finite by blast
  then have "snd (clean_loop entry entry []) = Inr [] \<and> fst (clean_loop entry entry []) \<noteq> []"
    by (rule clean_loop_skip)
  then show ?thesis
    by (simp add: clean_entry_def clean_entries_total entry_line_def)
qed

subsection \<open>The blocks of the data section\<close>

lemma nth_py_enumerate: "k < length xs \<Longrightarrow> py_enumerate xs ! k = (int k, xs ! k)"
  by (simp add: py_enumerate_def)

lemma map_py_enumerate:
  "map f (py_enumerate xs) = map (\<lambda>k. f (int k, xs ! k)) [0..<length xs]"
proof (rule nth_equalityI)
  show "length (map f (py_enumerate xs)) = length (map (\<lambda>k. f (int k, xs ! k)) [0..<length xs])"
    by (simp add: py_enumerate_def)
next
  fix i assume "i < length (map f (py_enumerate xs))"
  then have "i < length xs" by (simp add: py_enumerate_def)
  then show "map f (py_enumerate xs) ! i = map (\<lambda>k. f (int k, xs ! k)) [0..<length xs] ! i"
    by (simp add: py_enumerate_def)
qed

lemma upt_0_Suc: "[0..<Suc n] = 0 # map Suc [0..<n]"
  by (simp add: upt_conv_Cons map_Suc_upt del: upt_Suc)

lemma sets_as_list_blocks:
  "sets_as_list g i ss =
     Inr (concat (map (\<lambda>k. target_line g (i + int k) # (''@type '' @ datatype_tag (ss ! k) @ [LF])
                              # map entry_line (entries (ss ! k)) @ [''&'' @ [LF]])
                    [0..<length ss]))"
proof (induction ss arbitrary: i)
  case Nil
  then show ?case by simp
next
  case (Cons s ss)
  show ?case
    unfolding length_Cons upt_0_Suc
    by (simp add: Cons set_as_list_def clean_entries_total comp_def add.assoc del: upt_Suc)
qed

lemma groups_as_list_blocks:
  "groups_as_list gs =
     Inr (concat (map (\<lambda>g. concat (map (\<lambda>k. target_line (index g) (int k)
                              # (''@type '' @ datatype_tag (sets g ! k) @ [LF])
                              # map entry_line (entries (sets g ! k)) @ [''&'' @ [LF]])
                    [0..<length (sets g)])) gs))"
  by (induction gs) (simp_all add: group_as_list_def sets_as_list_blocks)

lemma skipped_entry_line: "skipped e \<longleftrightarrow> entry_line e = []"
  using clean_entry_total [of e] by (auto simp: skipped_def)

lemma target_line_nonempty [simp]: "target_line g s \<noteq> []"
  by (simp add: target_line_def)

lemma filter_entry_lines:
  "filter (\<lambda>l. l \<noteq> []) (map entry_line es) = map entry_line (filter (\<lambda>e. \<not> skipped e) es)"
  by (simp add: filter_map comp_def skipped_entry_line)

lemma block_filter:
  "filter (\<lambda>l. l \<noteq> []) (target_line g s # (''@type '' @ dt @ [LF]) # map entry_line es @ [''&'' @ [LF]])
     = [target_line g s, ''@type '' @ dt @ [LF]] @ map entry_line (filter (\<lambda>e. \<not> skipped e) es)
       @ [''&'' @ [LF]]"
  by (simp add: target_line_def filter_map comp_def skipped_entry_line)

lemma set_blocks_filter:
  "filter (\<lambda>l. l \<noteq> [])
     (concat (map (\<lambda>k. target_line g (int k)
                              # (''@type '' @ datatype_tag (map make_set sts ! k) @ [LF])
                              # map entry_line (entries (map make_set sts ! k)) @ [''&'' @ [LF]])
                  [0..<length sts]))
   = concat (map (\<lambda>(s, S_label, dt, es).
                  [target_line g s, ''@type '' @ dt @ [LF]]
                  @ map entry_line (filter (\<lambda>e. \<not> skipped e) es) @ [''&'' @ [LF]])
                 (py_enumerate sts))"
proof -
  define F where "F = (\<lambda>k. target_line g (int k)
                              # (''@type '' @ datatype_tag (map make_set sts ! k) @ [LF])
                              # map entry_line (entries (map make_set sts ! k)) @ [''&'' @ [LF]])"
  define H where "H = (\<lambda>(s, S_label :: string option, dt, es).
                  [target_line g s, ''@type '' @ dt @ [LF]]
                  @ map entry_line (filter (\<lambda>e. \<not> skipped e) es) @ [''&'' @ [LF]])"
  have B: "map (\<lambda>k. filter (\<lambda>l. l \<noteq> []) (F k)) [0..<length sts]
        = map (\<lambda>k. H (int k, sts ! k)) [0..<length sts]"
    by (rule map_cong [OF refl])
      (simp add: F_def H_def filter_entry_lines make_set_def case_prod_unfold)
  have "filter (\<lambda>l. l \<noteq> []) (concat (map F [0..<length sts]))
        = concat (map (\<lambda>k. filter (\<lambda>l. l \<noteq> []) (F k)) [0..<length sts])"
    by (simp add: filter_concat comp_def)
  also have "\<dots> = concat (map (\<lambda>k. H (int k, sts ! k)) [0..<length sts])"
    by (simp only: B)
  also have "\<dots> = concat (map H (py_enumerate sts))"
    by (simp only: map_py_enumerate)
  finally show ?thesis
    unfolding F_def H_def .
qed

subsection \<open>Tuples of numbers\<close>

lemma contains_set: "contains p s \<Longrightarrow> set p \<subseteq> set s"
proof (induction s)
  case Nil
  then show ?case by simp
next
  case (Cons c cs)
  then show ?case
    using set_mono_prefix [of p "c # cs"] by auto
qed

lemma lower_char_digit: "is_digit c \<or> c = CHR ''-'' \<Longrightarrow> lower_char c = c"
  by (auto simp: is_digit_def lower_char_def)

lemma str_int_chars: "c \<in> set (str_int i) \<Longrightarrow> is_digit c \<or> c = CHR ''-''"
  using str_pos_digits [of i] str_pos_digits [of "- i"]
  by (auto simp: str_int_def list_all_iff split: if_splits)

lemma lower_str_int: "lower (str_int i) = str_int i"
  unfolding lower_def by (rule map_idI) (auto dest!: str_int_chars simp: lower_char_digit)

lemma not_skips_int: "\<not> skips (DInt i)"
proof -
  have "\<not> contains w (str_int i)" if "CHR ''n'' \<in> set w" for w
  proof
    assume "contains w (str_int i)"
    from contains_set [OF this] that have "CHR ''n'' \<in> set (str_int i)" by auto
    from str_int_chars [OF this] show False by (simp add: is_digit_def)
  qed
  then show ?thesis
    by (simp add: skips_def lower_str_int)
qed

lemma skips_float: "skips (DFloat x) \<longleftrightarrow> \<not> finite_datum (DFloat x)"
proof (cases "x = NaN \<or> x = PInf \<or> x = NInf")
  case True
  then show ?thesis using skips_non_finite by auto
next
  case False
  then have "convert (DFloat x) \<noteq> Inl (ValueError ''cannot convert float NaN to integer'')"
    using convert_float_Inl [of x] by auto
  with False show ?thesis
    by (cases x) (auto simp: skips_def)
qed

lemma skipped_numeric:
  assumes "list_all numeric e"
  shows "skipped e \<longleftrightarrow> \<not> list_all finite_datum e"
proof -
  have "skips d \<longleftrightarrow> \<not> finite_datum d" if "d \<in> set e" for d
  proof -
    from assms that have "numeric d" by (simp add: list_all_iff)
    then show ?thesis
      by (cases d) (simp_all add: not_skips_int skips_float)
  qed
  then show ?thesis
    by (auto simp: skipped_def clean_entry_skip_iff list_all_iff)
qed

section \<open>Claims\<close>

text \<open>
  C7. A legend line that the loop reaches while no \<open>@with g\<close> line has been read makes
  the merge fail with the assertion: no line before it starts a group or a data
  section, and the line itself does not start a group. Conversely, when every
  legend line of the file has a \<open>@with g\<close> line before it, the merge never ends
  with the assertion.
\<close>

theorem legend_before_group_assertion:
  "((\<forall>p \<in> set pre. \<not> startswith p ''@with g'' \<and> \<not> data_start p)
      \<and> \<not> startswith l ''@with g'' \<and> re_search_legend l
     \<longrightarrow> create_file_lines G (pre @ l # post) =
           Inl (AssertionError ''No group (@with g#) was found in the file, before a legend.''))
   \<and> ((\<forall>i<length ls. re_search_legend (ls ! i) \<longrightarrow> (\<exists>j<i. startswith (ls ! j) ''@with g''))
     \<longrightarrow> (\<forall>m. create_file_lines G ls \<noteq> Inl (AssertionError m)))"
proof (intro conjI impI allI)
  assume "(\<forall>p \<in> set pre. \<not> startswith p ''@with g'' \<and> \<not> data_start p)
      \<and> \<not> startswith l ''@with g'' \<and> re_search_legend l"
  then show "create_file_lines G (pre @ l # post) =
           Inl (AssertionError ''No group (@with g#) was found in the file, before a legend.'')"
    by (simp add: create_file_lines_def scan_assert_none)
next
  fix m
  assume "\<forall>i<length ls. re_search_legend (ls ! i) \<longrightarrow> (\<exists>j<i. startswith (ls ! j) ''@with g'')"
  then have "scan G None ls \<noteq> Inl (AssertionError m)"
    by (rule scan_None_not_assert)
  then show "create_file_lines G ls \<noteq> Inl (AssertionError m)"
    by (auto simp: create_file_lines_def label_blocks_not_assert groups_as_list_not_assert
        split: sum.splits)
qed

theorem legend_before_group_assertion_witness:
  \<open>create_file_lines (Graph [] [] [])
       ([''# Grace project file'' @ [LF]] @ (''@    s0 legend  "a"'' @ [LF]) # []) =
     Inl (AssertionError ''No group (@with g#) was found in the file, before a legend.'')
   \<and> create_file_lines (Graph [] [] []) [''@with g0'' @ [LF], ''@    s0 legend  "a"'' @ [LF]]
        \<noteq> Inl (AssertionError [])\<close>
proof -
  have h1: \<open>(\<forall>p \<in> set [''# Grace project file'' @ [LF]]. \<not> startswith p ''@with g'' \<and> \<not> data_start p)
      \<and> \<not> startswith (''@    s0 legend  "a"'' @ [LF]) ''@with g''
      \<and> re_search_legend (''@    s0 legend  "a"'' @ [LF])\<close>
    by (simp add: data_start_def legend_at_def is_digit_def)
  have h2: \<open>\<forall>i<length [''@with g0'' @ [LF], ''@    s0 legend  "a"'' @ [LF]].
          re_search_legend ([''@with g0'' @ [LF], ''@    s0 legend  "a"'' @ [LF]] ! i)
          \<longrightarrow> (\<exists>j<i. startswith ([''@with g0'' @ [LF], ''@    s0 legend  "a"'' @ [LF]] ! j) ''@with g'')\<close>
    by (auto simp: less_Suc_eq legend_at_def nth_Cons')
  from h1 h2 legend_before_group_assertion
    [of "[''# Grace project file'' @ [LF]]" \<open>''@    s0 legend  "a"'' @ [LF]\<close> "Graph [] [] []" "[]"
        \<open>[''@with g0'' @ [LF], ''@    s0 legend  "a"'' @ [LF]]\<close>]
  show ?thesis by blast
qed


text \<open>
  C3 (amended). Take a legend line of the old file that the loop reaches: it starts
  with \<open>@    s\<close>, a digit \<open>d\<close> and \<open> legend  "\<close>, the lines before it are read
  without leaving the loop, and they leave the group \<open>g\<close>. The output of the merge is
  then exactly: the output \<open>out1\<close> of the lines before it; the legend line of the
  newly supplied label if the new data have a set \<open>d\<close> in the group \<open>g\<close>, and nothing
  if they have not; the output of the loop on the lines after it; and what follows
  the loop. The old line itself is not in that place. The output for the same file
  without the old line is the same except for the new legend line.
\<close>

theorem label_overwrite:
  assumes pre: "scan (Graph now descr datasets) None pre = Inr (out1, Some g, False)"
    and d: "is_digit d"
  shows \<open>create_file_lines (Graph now descr datasets)
           (pre @ (''@    s'' @ [d] @ '' legend  "'' @ rest) # post) =
         (case scan (Graph now descr datasets) (Some g) post of
            Inl e \<Rightarrow> Inl e
          | Inr (out2, g2, found) \<Rightarrow>
              (case else_lines (Graph now descr datasets) found of
                 Inl e \<Rightarrow> Inl e
               | Inr tail \<Rightarrow>
                   Inr (out1
                        @ (case supplied_label datasets g (digit_val d) of
                             None \<Rightarrow> [] | Some lab \<Rightarrow> [legend_line (digit_val d) lab])
                        @ out2 @ tail)))
       \<and> create_file_lines (Graph now descr datasets) (pre @ post) =
         (case scan (Graph now descr datasets) (Some g) post of
            Inl e \<Rightarrow> Inl e
          | Inr (out2, g2, found) \<Rightarrow>
              (case else_lines (Graph now descr datasets) found of
                 Inl e \<Rightarrow> Inl e
               | Inr tail \<Rightarrow> Inr (out1 @ out2 @ tail)))\<close>
proof -
  define G where "G = Graph now descr datasets"
  define l where \<open>l = ''@    s'' @ [d] @ '' legend  "'' @ rest\<close>
  define new where "new = (case supplied_label datasets g (digit_val d) of
                             None \<Rightarrow> [] | Some lab \<Rightarrow> [legend_line (digit_val d) lab])"
  have "line_out G (Some g) l = (case legend_of G g (digit_val d) of None \<Rightarrow> [] | Some n \<Rightarrow> [n])"
    using d unfolding l_def line_out_def
    by (simp only: legend_form_matches first_digits_legend if_True option.case)
  also have "\<dots> = new"
    unfolding G_def legend_of_Graph new_def by (simp split: option.splits)
  finally have lo: "line_out G (Some g) l = new" .
  have ng: "next_group (Some g) l = Inr (Some g)"
    by (simp add: next_group_def l_def)
  have ds: "\<not> data_start l"
    by (simp add: data_start_def l_def)
  have "scan G (Some g) (l # post) = emit new (scan G (Some g) post)"
    using scan_step [OF ng ds, of G post] lo by simp
  then have sc: "scan G None (pre @ l # post) = emit (out1 @ new) (scan G (Some g) post)"
    using scan_append [OF pre [folded G_def], of "l # post"] by simp
  have sc0: "scan G None (pre @ post) = emit out1 (scan G (Some g) post)"
    by (rule scan_append [OF pre [folded G_def]])
  show ?thesis
    unfolding G_def [symmetric] l_def [symmetric] new_def [symmetric] create_file_lines_else sc sc0
    by (cases "scan G (Some g) post") (auto split: sum.splits)
qed

theorem label_overwrite_witness:
  \<open>create_file_lines (Graph [] [] [(None, [(Some ''new'', ''xy'', [])])])
      [''@with g0'' @ [LF], ''@    s0 legend  "old"'' @ [LF], ''@    s5 legend  "gone"'' @ [LF],
       ''@target G0.S0'' @ [LF], ''@type xy'' @ [LF], ''7 8'' @ [LF], ''&'' @ [LF]]
    = Inr [''@with g0'' @ [LF], ''@    s0 legend  "new"'' @ [LF], ''@target G0.S0'' @ [LF],
           ''@type xy'' @ [LF], ''&'' @ [LF]]\<close>
proof -
  have h1: "scan (Graph [] [] [(None, [(Some ''new'', ''xy'', [])])]) None [''@with g0'' @ [LF]]
              = Inr ([''@with g0'' @ [LF]], Some 0, False)"
    by code_simp
  have h2: "is_digit (CHR ''0'')"
    by code_simp
  have h3: \<open>scan (Graph [] [] [(None, [(Some ''new'', ''xy'', [])])]) (Some 0)
              [''@    s5 legend  "gone"'' @ [LF],
               ''@target G0.S0'' @ [LF], ''@type xy'' @ [LF], ''7 8'' @ [LF], ''&'' @ [LF]]
            = Inr ([''@target G0.S0'' @ [LF], ''@type xy'' @ [LF], ''&'' @ [LF]], Some 0, True)\<close>
    by code_simp
  have h4: "supplied_label [(None, [(Some ''new'', ''xy'', [])])] 0 0 = Some ''new''"
    by code_simp
  have h5: "digit_val (CHR ''0'') = 0"
    by code_simp
  have h6: \<open>legend_line 0 ''new'' = ''@    s0 legend  "new"'' @ [LF]\<close>
    by code_simp
  have h7: "else_lines (Graph [] [] [(None, [(Some ''new'', ''xy'', [])])]) True = Inr []"
    by (simp add: else_lines_def)
  note t = label_overwrite [OF h1 h2, of "''old'' @ [DQ, LF]"
      \<open>[''@    s5 legend  "gone"'' @ [LF],
               ''@target G0.S0'' @ [LF], ''@type xy'' @ [LF], ''7 8'' @ [LF], ''&'' @ [LF]]\<close>,
      unfolded h3 h5 h4]
  from t [THEN conjunct1] show ?thesis
    by (simp only: sum.case prod.case option.case h7 h6 append.simps)
qed

text \<open>
  The claim as stated fails for a legend line that comes after the first line of a
  data section: the loop has left before it reads the line, and the new legend of
  the set is nowhere in the output.
\<close>

theorem label_overwrite_counterexample:
  \<open>supplied_label [(None, [(Some ''new'', ''xy'', [])])] 0 0 = Some ''new''
   \<and> create_file_lines (Graph [] [] [(None, [(Some ''new'', ''xy'', [])])])
        [''@with g0'' @ [LF], ''@target G0.S0'' @ [LF], ''@    s0 legend  "old"'' @ [LF]]
      = Inr [''@with g0'' @ [LF], ''@target G0.S0'' @ [LF], ''@type xy'' @ [LF], ''&'' @ [LF]]\<close>
  by code_simp

text \<open>
  C9. An \<open>OverflowError\<close> raised while a component is converted is not raised again:
  the text that the handler compares with never equals the message of the error,
  and the handler has no \<open>raise\<close>. For a tuple of an infinite value whose \<open>str\<close> does
  not show it and the integer \<open>1\<close>, the line is written without the first component.
\<close>

theorem overflow_error_swallowed:
  "clean_entry [DFloatSub ''big'' PInf, DInt 1] = ([], Inr (''1'' @ [LF]))"
  by code_simp




text \<open>
  C2 (amended). The lines of the old file before the first line of a data section that
  match none of the five patterns are in the output, unmodified and in the same
  order: they are a subsequence of it. Such a line, when the new model does not
  write the same text itself, is in the output as many times as it is in that part
  of the old file. The lines from the first line of a data section on are discarded.
\<close>

theorem passthrough_preserved:
  assumes "create_file_lines G ls = Inr out"
  shows "subseq (filter passthrough (takeWhile (\<lambda>l. \<not> data_start l) ls)) out
     \<and> (passthrough x \<and> x \<notin> model_lines G \<longrightarrow>
          count_list out x = count_list (takeWhile (\<lambda>l. \<not> data_start l) ls) x)"
proof -
  from assms obtain lines g1 f where sc: "scan G None ls = Inr (lines, g1, f)"
    by (auto simp: create_file_lines_def split: sum.splits)
  note sp = scan_passthrough [OF sc, of x]
  show ?thesis
  proof (cases f)
    case True
    with assms sc have "out = lines" by (simp add: create_file_lines_def)
    with sp show ?thesis by simp
  next
    case False
    with assms sc obtain blocks d where o: "out = lines @ blocks @ d"
      and b: "label_blocks G (subtitle G) = Inr blocks" and d: "groups_as_list (data G) = Inr d"
      by (auto simp: create_file_lines_def split: sum.splits)
    have "x \<notin> model_lines G \<Longrightarrow> x \<notin> set blocks \<and> x \<notin> set d"
      using b d by (simp add: model_lines_def)
    with sp o show ?thesis
      by (auto intro: list_emb_append2)
  qed
qed

theorem passthrough_preserved_witness:
  "subseq [''# Grace project file'' @ [LF]] [''# Grace project file'' @ [LF], ''@with g0'' @ [LF]]
   \<and> count_list [''# Grace project file'' @ [LF], ''@with g0'' @ [LF]] (''# Grace project file'' @ [LF]) = 1"
proof -
  have h1: "create_file_lines (Graph [] [] [])
              [''# Grace project file'' @ [LF], ''@with g0'' @ [LF], ''@target G0.S0'' @ [LF], ''1 2'' @ [LF]]
            = Inr [''# Grace project file'' @ [LF], ''@with g0'' @ [LF]]"
    by code_simp
  have h2: "passthrough (''# Grace project file'' @ [LF])"
    by code_simp
  have h3: "''# Grace project file'' @ [LF] \<notin> model_lines (Graph [] [] [])"
    by code_simp
  have h4: "takeWhile (\<lambda>l. \<not> data_start l)
              [''# Grace project file'' @ [LF], ''@with g0'' @ [LF], ''@target G0.S0'' @ [LF], ''1 2'' @ [LF]]
            = [''# Grace project file'' @ [LF], ''@with g0'' @ [LF]]"
    by code_simp
  have h5: "filter passthrough [''# Grace project file'' @ [LF], ''@with g0'' @ [LF]]
            = [''# Grace project file'' @ [LF]]"
    by code_simp
  from passthrough_preserved [OF h1, of "''# Grace project file'' @ [LF]"] h2 h3
  show ?thesis unfolding h4 h5 by simp
qed

text \<open>
  The claim as stated fails for the lines after the first line of a data section:
  the old tuple line \<open>1 2\<close> matches none of the patterns and is not in the output.
\<close>

theorem passthrough_counterexample:
  "passthrough (''1 2'' @ [LF])
   \<and> create_file_lines (Graph [] [] [(None, [(None, ''xy'', [[DInt 3, DInt 4]])])])
        [''@with g0'' @ [LF], ''@target G0.S0'' @ [LF], ''@type xy'' @ [LF], ''1 2'' @ [LF], ''&'' @ [LF]]
      = Inr [''@with g0'' @ [LF], ''@target G0.S0'' @ [LF], ''@type xy'' @ [LF], ''3 4'' @ [LF], ''&'' @ [LF]]"
  by code_simp

text \<open>
  C5. A tuple with a component that is an infinity is not always skipped. When the
  infinite value is an instance of a subclass of \<open>float\<close> whose \<open>str\<close> does not
  contain \<open>inf\<close>, the test on the text lets it pass, the conversion raises
  \<open>OverflowError\<close>, and the handler neither returns the empty string nor raises:
  the line of the tuple is written without the component, and nothing is printed.
\<close>

theorem infinite_component_not_skipped:
  "\<not> finite_datum (DFloatSub ''big'' NInf)
   \<and> clean_entry [DInt 1, DFloatSub ''big'' NInf, DInt 3] = ([], Inr (''1 3'' @ [LF]))"
  by code_simp

text \<open>
  C10. For every tuple with a string component whose text, in lower case, contains
  \<open>inf\<close> or \<open>nan\<close>, \<open>clean_entry\<close> returns the empty string: the whole tuple is skipped,
  whatever its other components are. The text \<open>Information\<close> is such a string.
\<close>

theorem substring_detection_skips_tuple:
  assumes "DStr t \<in> set entry"
    and "contains ''inf'' (lower t) \<or> contains ''nan'' (lower t)"
  shows "snd (clean_entry entry) = Inr []"
proof -
  from assms(2) have "skips (DStr t)" by (simp add: skips_def)
  with assms(1) have "\<exists>d \<in> set entry. skips d" by blast
  then show ?thesis by (simp add: clean_entry_skip_iff)
qed

theorem substring_detection_skips_tuple_witness:
  "snd (clean_entry [DStr ''Information'', DInt 1]) = Inr []"
proof -
  have h1: "DStr ''Information'' \<in> set [DStr ''Information'', DInt 1]" by simp
  have h2: "contains ''inf'' (lower ''Information'') \<or> contains ''nan'' (lower ''Information'')"
    by code_simp
  from substring_detection_skips_tuple [OF h1 h2] show ?thesis .
qed

text \<open>
  C4 (amended). For every input model the data section is written, and its lines (the
  empty strings that stand for dropped tuples apart) are exactly one block per
  (Group, Set) of the model, in Group and Set order: the line \<open>@target G<g>.S<s>\<close>,
  the line \<open>@type <datatype>\<close>, one formatted line for each supplied tuple that the
  formatter does not drop, in the order supplied, and the line \<open>&\<close>. A tuple whose
  components are all built-in integers and floats is dropped exactly when one of
  its components is a NaN or an infinity.
\<close>

theorem data_section_blocks:
  "(\<exists>ls. groups_as_list (data (Graph now descr datasets)) = Inr ls
        \<and> filter (\<lambda>l. l \<noteq> []) ls =
            concat (map (\<lambda>(g, G_label, sts).
               concat (map (\<lambda>(s, S_label, dt, es).
                  [target_line g s, ''@type '' @ dt @ [LF]]
                  @ map entry_line (filter (\<lambda>e. \<not> skipped e) es) @ [''&'' @ [LF]])
                 (py_enumerate sts)))
              (py_enumerate datasets)))
   \<and> (\<forall>e. list_all numeric e \<longrightarrow> (skipped e \<longleftrightarrow> \<not> list_all finite_datum e))"
proof -
  define H where "H = (\<lambda>g (sts :: (string option \<times> string \<times> datum list list) list).
               concat (map (\<lambda>(s, S_label, dt, es).
                  [target_line g s, ''@type '' @ dt @ [LF]]
                  @ map entry_line (filter (\<lambda>e. \<not> skipped e) es) @ [''&'' @ [LF]])
                 (py_enumerate sts)))"
  define F where "F = (\<lambda>g :: group_obj. concat (map (\<lambda>k. target_line (index g) (int k)
                              # (''@type '' @ datatype_tag (sets g ! k) @ [LF])
                              # map entry_line (entries (sets g ! k)) @ [''&'' @ [LF]])
                    [0..<length (sets g)]))"
  have g: "groups_as_list (data (Graph now descr datasets))
             = Inr (concat (map F (map make_group (py_enumerate datasets))))"
    unfolding F_def by (simp add: groups_as_list_blocks Graph_def)
  have one: "filter (\<lambda>l. l \<noteq> []) (F (make_group t)) = (case t of (g, G_label, sts) \<Rightarrow> H g sts)" for t
    unfolding F_def H_def
    by (cases t)
      (simp only: make_group_def prod.case group_obj.select_convs length_map set_blocks_filter)
  have "filter (\<lambda>l. l \<noteq> []) (concat (map F (map make_group (py_enumerate datasets))))
          = concat (map (\<lambda>t. filter (\<lambda>l. l \<noteq> []) (F (make_group t))) (py_enumerate datasets))"
    by (simp add: filter_concat comp_def)
  also have "\<dots> = concat (map (\<lambda>(g, G_label, sts). H g sts) (py_enumerate datasets))"
    by (simp only: one)
  finally have "\<exists>ls. groups_as_list (data (Graph now descr datasets)) = Inr ls
        \<and> filter (\<lambda>l. l \<noteq> []) ls =
            concat (map (\<lambda>(g, G_label, sts).
               concat (map (\<lambda>(s, S_label, dt, es).
                  [target_line g s, ''@type '' @ dt @ [LF]]
                  @ map entry_line (filter (\<lambda>e. \<not> skipped e) es) @ [''&'' @ [LF]])
                 (py_enumerate sts)))
              (py_enumerate datasets))"
    unfolding g H_def by blast
  then show ?thesis
    using skipped_numeric by blast
qed

theorem data_section_blocks_witness:
  "skipped [DInt 1, DFloat NaN] \<and> \<not> skipped [DInt 2, DFloat (Finite 3)]
   \<and> (\<exists>ls. groups_as_list (data (Graph [] [] [(None, [(None, ''xy'', [[DInt 1, DFloat NaN], [DInt 2, DFloat (Finite 3)]])])])) = Inr ls
         \<and> filter (\<lambda>l. l \<noteq> []) ls =
             [''@target G0.S0'' @ [LF], ''@type xy'' @ [LF], ''2 3'' @ [LF], ''&'' @ [LF]])"
proof -
  have h1: "list_all numeric [DInt 1, DFloat NaN]" by simp
  have h2: "list_all numeric [DInt 2, DFloat (Finite 3)]" by simp
  have s1: "skipped [DInt 1, DFloat NaN]"
    using data_section_blocks [THEN conjunct2, rule_format, OF h1] by simp
  have s2: "\<not> skipped [DInt 2, DFloat (Finite 3)]"
    using data_section_blocks [THEN conjunct2, rule_format, OF h2] by simp
  have e: "entry_line [DInt 2, DFloat (Finite 3)] = ''2 3'' @ [LF]"
    by code_simp
  have t: "target_line 0 0 = ''@target G0.S0'' @ [LF]"
    by code_simp
  have p1: "py_enumerate [x] = [(0, x)]" for x :: 'a
    by (simp add: py_enumerate_def)
  show ?thesis
    using data_section_blocks [THEN conjunct1,
        of "[]" "[]" "[(None, [(None, ''xy'', [[DInt 1, DFloat NaN], [DInt 2, DFloat (Finite 3)]])])]"]
    by (simp add: s1 s2 e t p1)
qed

text \<open>
  As stated, with the count of the tuples whose components are all finite, the claim
  fails for a tuple with a string component that contains \<open>inf\<close>: every component is
  finite, the formatter drops the tuple, and the block has one tuple line for two
  finite-valued tuples.
\<close>

theorem data_section_counterexample:
  "list_all finite_datum [DStr ''info'', DInt 1]
   \<and> groups_as_list (data (Graph [] [] [(None, [(None, ''xy'', [[DStr ''info'', DInt 1], [DInt 2, DInt 3]])])]))
     = Inr [''@target G0.S0'' @ [LF], ''@type xy'' @ [LF], [], ''2 3'' @ [LF], ''&'' @ [LF]]"
  by code_simp

end
